theory Spec2Isabelle
  imports Main "HOL-Library.Char_ord" "HOL-Library.List_Lexorder"
begin

section \<open>Exceptions\<close>

text \<open>
  Every exception the redactor can raise is a value.  An exception carries the
  argument that determines its message: \<open>KeyError k\<close> is the failed lookup of key \<open>k\<close>,
  \<open>SyntaxError p\<close> is \<^verbatim>\<open>SyntaxError("prefix %r not found in prefix map" % p)\<close>,
  \<open>PyException m\<close> is \<^verbatim>\<open>Exception(m)\<close>.
\<close>

datatype error =
    KeyError string
  | ValueError
  | SyntaxError string
  | AttributeError
  | TypeError
  | PyException string
  | BadZipFile
  | ParseError

text \<open>
  Python's built-in hierarchy: \<^verbatim>\<open>LookupError\<close> has the subclasses \<^verbatim>\<open>KeyError\<close> and
  \<^verbatim>\<open>IndexError\<close>; \<^verbatim>\<open>SyntaxError\<close>, \<^verbatim>\<open>ValueError\<close>, \<^verbatim>\<open>AttributeError\<close> and
  \<^verbatim>\<open>TypeError\<close> derive from \<^verbatim>\<open>Exception\<close> directly.
\<close>

fun is_LookupError :: "error \<Rightarrow> bool" where
  "is_LookupError (KeyError k) = True"
| "is_LookupError e = False"

section \<open>The namespace table and \<open>expand\<close>\<close>

definition namespaces :: "(string \<times> string) list" where
  "namespaces =
    [(''m'', ''http://schemas.openxmlformats.org/officeDocument/2006/math''),
     (''mc'', ''http://schemas.openxmlformats.org/markup-compatibility/2006''),
     (''o'', ''urn:schemas-microsoft-com:office:office''),
     (''r'', ''http://schemas.openxmlformats.org/officeDocument/2006/relationships''),
     (''v'', ''urn:schemas-microsoft-com:vml''),
     (''w'', ''http://schemas.openxmlformats.org/wordprocessingml/2006/main''),
     (''w10'', ''urn:schemas-microsoft-com:office:word''),
     (''w14'', ''http://schemas.microsoft.com/office/word/2010/wordml''),
     (''wne'', ''http://schemas.microsoft.com/office/word/2006/wordml''),
     (''wp'', ''http://schemas.openxmlformats.org/drawingml/2006/wordprocessingDrawing''),
     (''wp14'', ''http://schemas.microsoft.com/office/word/2010/wordprocessingDrawing''),
     (''wpc'', ''http://schemas.microsoft.com/office/word/2010/wordprocessingCanvas''),
     (''wpg'', ''http://schemas.microsoft.com/office/word/2010/wordprocessingGroup''),
     (''wpi'', ''http://schemas.microsoft.com/office/word/2010/wordprocessingInk''),
     (''wps'', ''http://schemas.microsoft.com/office/word/2010/wordprocessingShape'')]"

text \<open>
  \<^verbatim>\<open>tag.split(":", 1)\<close>: one piece when the tag has no colon, otherwise the text
  before the first colon and the text after it.
\<close>

definition split_colon :: "string \<Rightarrow> string list" where
  "split_colon t =
     (case dropWhile (\<lambda>c. c \<noteq> CHR '':'') t of
        [] \<Rightarrow> [t]
      | c # rest \<Rightarrow> [takeWhile (\<lambda>c. c \<noteq> CHR '':'') t, rest])"

text \<open>
  \<open>expand ns tag\<close> is \<^verbatim>\<open>self.expand(tag)\<close> with \<^verbatim>\<open>self.namespaces = ns\<close>.  The
  unpacking of line 150 is outside the \<^verbatim>\<open>try\<close>: a tag without a colon raises
  \<^verbatim>\<open>ValueError\<close>.  The \<^verbatim>\<open>KeyError\<close> of the table lookup is caught and replaced by a
  \<^verbatim>\<open>SyntaxError\<close> built from the prefix.
\<close>

definition expand :: "(string \<times> string) list \<Rightarrow> string \<Rightarrow> error + string" where
  "expand ns t =
     (case split_colon t of
        [prefix, uri] \<Rightarrow>
          (case map_of ns prefix of
             None \<Rightarrow> Inl (SyntaxError prefix)
           | Some u \<Rightarrow> Inr (''{'' @ u @ ''}'' @ uri))
      | _ \<Rightarrow> Inl ValueError)"

section \<open>The element heap\<close>

text \<open>
  An \<^verbatim>\<open>Element\<close> object has a tag, an attribute dictionary, text (the field
  \<open>etext\<close>), tail and a list of references to its children.  Objects live in a heap, a list indexed by the
  object's reference; references are numbered in creation order, and the parser
  creates an element before its children.
\<close>

record element =
  tag :: string
  attrib :: "(string \<times> string) list"
  etext :: "string option"
  tail :: "string option"
  children :: "nat list"

type_synonym heap = "element list"

text \<open>
  The child references followed by a traversal.  On a heap built by the parser every
  child reference lies in the heap and is younger than its parent (\<open>wf_heap\<close> below),
  so the filter keeps all of them there; it makes the traversal total on every list
  of records.
\<close>

definition child_refs :: "heap \<Rightarrow> nat \<Rightarrow> nat list" where
  "child_refs hp n =
     (if n < length hp then filter (\<lambda>c. n < c \<and> c < length hp) (children (hp ! n)) else [])"

definition wf_heap :: "heap \<Rightarrow> bool" where
  "wf_heap hp = list_all (\<lambda>n. list_all (\<lambda>c. n < c \<and> c < length hp) (children (hp ! n))) [0..<length hp]"

function iter_all :: "heap \<Rightarrow> nat \<Rightarrow> nat list" where
  "iter_all hp n = n # concat (map (iter_all hp) (child_refs hp n))"
  by pat_completeness auto
termination
  by (relation "measure (\<lambda>(hp, n). length hp - n)") (auto simp: child_refs_def split: if_splits)

declare iter_all.simps [simp del]

text \<open>
  \<^verbatim>\<open>Element.iter(tag)\<close>: the element and its descendants in document order, those
  with the given tag only; \<^verbatim>\<open>None\<close> and \<^verbatim>\<open>"*"\<close> select every element.
\<close>

definition iter :: "heap \<Rightarrow> nat \<Rightarrow> string option \<Rightarrow> nat list" where
  "iter hp n t =
     (case t of
        None \<Rightarrow> iter_all hp n
      | Some tg \<Rightarrow> if tg = ''*'' then iter_all hp n
                   else filter (\<lambda>i. tag (hp ! i) = tg) (iter_all hp n))"

section \<open>The archive\<close>

text \<open>
  A ZIP archive as \<^verbatim>\<open>zipfile\<close> presents it: the entries in directory order, each
  a \<^verbatim>\<open>ZipInfo\<close> with its uncompressed payload, and the archive comment.  Sizes,
  offsets and checksums are functions of the payload and are not stored.
\<close>

type_synonym bytes = string

record zipinfo =
  filename :: string
  date_time :: "nat list"
  compress_type :: nat
  extra :: bytes
  external_attr :: nat

record archive =
  entries :: "(zipinfo \<times> bytes) list"
  comment :: bytes

datatype fs_file = ZipFile archive | OtherFile bytes

type_synonym filesystem = "string \<Rightarrow> fs_file option"

text \<open>
  \<^verbatim>\<open>ZipFile.getinfo(name)\<close> and \<^verbatim>\<open>ZipFile.read(name)\<close> go through the name table,
  in which a later entry of the same name replaces an earlier one.
\<close>

definition getinfo :: "archive \<Rightarrow> string \<Rightarrow> error + zipinfo" where
  "getinfo ar name =
     (case filter (\<lambda>e. filename (fst e) = name) (entries ar) of
        [] \<Rightarrow> Inl (KeyError name)
      | e # es \<Rightarrow> Inr (fst (last (e # es))))"

definition zip_read :: "archive \<Rightarrow> string \<Rightarrow> error + bytes" where
  "zip_read ar name =
     (case filter (\<lambda>e. filename (fst e) = name) (entries ar) of
        [] \<Rightarrow> Inl (KeyError name)
      | e # es \<Rightarrow> Inr (snd (last (e # es))))"



section \<open>The redactor\<close>

text \<open>
  The fields of a \<^verbatim>\<open>DocxRedactor\<close>, the heap its elements live in, and the lines it
  has printed.  \<^verbatim>\<open>self.namespaces\<close> is the constant \<open>namespaces\<close>.
\<close>

record redactor =
  is_open :: bool
  path :: "string option"
  doc_info :: "zipinfo option"
  root :: "nat option"
  parent_map :: "(nat \<Rightarrow> nat option) option"
  heap :: heap
  stdout :: "string list"


text \<open>
  \<^verbatim>\<open>dict((c, p) for p in self.root.getiterator() for c in p)\<close>: a later pair for the
  same child replaces an earlier one.  \<^verbatim>\<open>getiterator\<close> is the older name of
  \<^verbatim>\<open>iter\<close>.
\<close>

definition build_parent_map :: "heap \<Rightarrow> nat \<Rightarrow> nat \<Rightarrow> nat option" where
  "build_parent_map hp r =
     map_of (rev (concat (map (\<lambda>p. map (\<lambda>c. (c, p)) (children (hp ! p))) (iter hp r None))))"

text \<open>
  \<open>open_doc fromstring fs st file_path\<close> is \<^verbatim>\<open>self.open(file_path)\<close>.  The parser
  \<^verbatim>\<open>ET.fromstring\<close> belongs to the standard library and is a parameter: it yields the
  heap of the elements it created and the reference of the root.  The message of the
  first exception is the unformatted template (\<^verbatim>\<open>.format\<close> on a \<^verbatim>\<open>%s\<close> template).
\<close>

definition open_doc ::
  "(bytes \<Rightarrow> error + heap \<times> nat) \<Rightarrow> filesystem \<Rightarrow> redactor \<Rightarrow> string \<Rightarrow> redactor \<times> error option" where
  "open_doc fromstring fs st file_path =
     (case fs file_path of
        None \<Rightarrow> (st, Some (PyException (''File '' @ [CHR 0x27] @ ''%s'' @ [CHR 0x27] @ '' does not exist'')))
      | Some (OtherFile b) \<Rightarrow> (st\<lparr>path := Some file_path\<rparr>, Some BadZipFile)
      | Some (ZipFile zip_file) \<Rightarrow>
          (case getinfo zip_file ''word/document.xml'' of
             Inl e \<Rightarrow> (st\<lparr>path := Some file_path\<rparr>, Some e)
           | Inr info \<Rightarrow>
               (case zip_read zip_file (filename info) of
                  Inl e \<Rightarrow> (st\<lparr>path := Some file_path, doc_info := Some info\<rparr>, Some e)
                | Inr document \<Rightarrow>
                    (case fromstring document of
                       Inl e \<Rightarrow> (st\<lparr>path := Some file_path, doc_info := Some info\<rparr>, Some e)
                     | Inr (hp, r) \<Rightarrow>
                         (st\<lparr>path := Some file_path, doc_info := Some info, root := Some r,
                             heap := hp, parent_map := Some (build_parent_map hp r),
                             is_open := True\<rparr>, None)))))"

definition check_open :: "redactor \<Rightarrow> error option" where
  "check_open st = (if \<not> is_open st then Some (PyException ''You have to open a file first'') else None)"


subsection \<open>Queries\<close>

text \<open>\<^verbatim>\<open>list(filter(lambda h: h.attrib[attribute] == color, highlights))\<close>.\<close>

fun filter_color :: "heap \<Rightarrow> string \<Rightarrow> string \<Rightarrow> nat list \<Rightarrow> error + nat list" where
  "filter_color hp attribute color [] = Inr []"
| "filter_color hp attribute color (h # hs) =
     (case map_of (attrib (hp ! h)) attribute of
        None \<Rightarrow> Inl (KeyError attribute)
      | Some v \<Rightarrow>
          (case filter_color hp attribute color hs of
             Inl e \<Rightarrow> Inl e
           | Inr out \<Rightarrow> Inr (if v = color then h # out else out)))"

definition get_highlights :: "redactor \<Rightarrow> string option \<Rightarrow> error + nat list" where
  "get_highlights st color =
     (case expand namespaces ''w:val'' of
        Inl e \<Rightarrow> Inl e
      | Inr attribute \<Rightarrow>
          (case root st of
             None \<Rightarrow> Inl AttributeError
           | Some r \<Rightarrow>
               (case expand namespaces ''w:highlight'' of
                  Inl e \<Rightarrow> Inl e
                | Inr htag \<Rightarrow>
                    (case color of
                       None \<Rightarrow> Inr (iter (heap st) r (Some htag))
                     | Some c \<Rightarrow> filter_color (heap st) attribute c (iter (heap st) r (Some htag))))))"

text \<open>\<^verbatim>\<open>map(lambda h: h.attrib[self.expand('w:val')], highlights)\<close>, consumed in order.\<close>

fun map_color :: "heap \<Rightarrow> nat list \<Rightarrow> error + string list" where
  "map_color hp [] = Inr []"
| "map_color hp (h # hs) =
     (case expand namespaces ''w:val'' of
        Inl e \<Rightarrow> Inl e
      | Inr attribute \<Rightarrow>
          (case map_of (attrib (hp ! h)) attribute of
             None \<Rightarrow> Inl (KeyError attribute)
           | Some v \<Rightarrow>
               (case map_color hp hs of
                  Inl e \<Rightarrow> Inl e
                | Inr out \<Rightarrow> Inr (v # out))))"

text \<open>
  \<^verbatim>\<open>sorted(frozenset(...))\<close>: the distinct values in ascending order.  Strings are
  compared character by character; on UTF-8 bytes this is the order of the code points.
\<close>

definition get_all_colors :: "redactor \<Rightarrow> error + string list" where
  "get_all_colors st =
     (case check_open st of
        Some e \<Rightarrow> Inl e
      | None \<Rightarrow>
          (case get_highlights st None of
             Inl e \<Rightarrow> Inl e
           | Inr highlights \<Rightarrow>
               (case map_color (heap st) highlights of
                  Inl e \<Rightarrow> Inl e
                | Inr vals \<Rightarrow> Inr (sort (remdups vals)))))"

subsection \<open>Finding the enclosing run or paragraph\<close>

text \<open>
  The \<^verbatim>\<open>while True\<close> loop of \<open>get_run_or_paragraph_for_highlight\<close>.  A missing key
  of the parent map is the caught \<^verbatim>\<open>KeyError\<close> and returns \<^verbatim>\<open>None\<close>; \<^verbatim>\<open>or\<close>
  evaluates its second operand only when the first is false.  The loop reads the
  heap through the tags alone (\<open>tagf\<close>).  Not returning is the value \<open>None\<close> of the
  outer option.
\<close>

partial_function (option) parent_walk ::
  "(nat \<Rightarrow> string) \<Rightarrow> (nat \<Rightarrow> nat option) \<Rightarrow> nat \<Rightarrow> (error + nat option) option" where
  "parent_walk tagf pm elem =
     (case pm elem of
        None \<Rightarrow> Some (Inr None)
      | Some p \<Rightarrow>
          (case expand namespaces ''w:r'' of
             Inl e \<Rightarrow> Some (Inl e)
           | Inr wr \<Rightarrow>
               if tagf p = wr then Some (Inr (Some p))
               else
                 (case expand namespaces ''w:p'' of
                    Inl e \<Rightarrow> Some (Inl e)
                  | Inr wp \<Rightarrow>
                      if tagf p = wp then Some (Inr (Some p))
                      else parent_walk tagf pm p)))"

declare parent_walk.simps [code]

definition get_run_or_paragraph_for_highlight ::
  "redactor \<Rightarrow> nat \<Rightarrow> (error + nat option) option" where
  "get_run_or_paragraph_for_highlight st highlight =
     (case parent_map st of
        None \<Rightarrow> Some (Inl TypeError)
      | Some pm \<Rightarrow> parent_walk (\<lambda>n. tag (heap st ! n)) pm highlight)"

subsection \<open>Rewriting a run or paragraph\<close>

text \<open>
  \<^verbatim>\<open>for x in xs: elem.remove(x)\<close>.  \<^verbatim>\<open>Element.remove\<close> deletes the first occurrence
  of \<open>x\<close> among the direct children of \<open>elem\<close> and raises \<^verbatim>\<open>ValueError\<close> when \<open>x\<close> is
  not one of them; what was removed before stays removed.
\<close>

fun remove_each :: "heap \<Rightarrow> nat \<Rightarrow> nat list \<Rightarrow> heap \<times> error option" where
  "remove_each hp elem [] = (hp, None)"
| "remove_each hp elem (x # xs) =
     (if x \<in> set (children (hp ! elem))
      then remove_each (hp[elem := (hp ! elem)\<lparr>children := remove1 x (children (hp ! elem))\<rparr>]) elem xs
      else (hp, Some ValueError))"

text \<open>\<^verbatim>\<open>for text_node in ...: text_node.text = text\<close>.\<close>

fun set_texts :: "heap \<Rightarrow> nat list \<Rightarrow> string \<Rightarrow> heap" where
  "set_texts hp [] t = hp"
| "set_texts hp (n # ns) t = set_texts (hp[n := (hp ! n)\<lparr>etext := Some t\<rparr>]) ns t"

text \<open>
  One of the two \<^verbatim>\<open>if elem.tag == self.expand(ctag)\<close> blocks: the list of all
  elements below \<open>elem\<close> with the tag \<open>ptag\<close> is taken first, then each is removed
  from \<open>elem\<close>.
\<close>

definition strip_props :: "heap \<Rightarrow> nat \<Rightarrow> string \<Rightarrow> string \<Rightarrow> heap \<times> error option" where
  "strip_props hp elem ctag ptag =
     (case expand namespaces ctag of
        Inl e \<Rightarrow> (hp, Some e)
      | Inr ct \<Rightarrow>
          if tag (hp ! elem) = ct then
            (case expand namespaces ptag of
               Inl e \<Rightarrow> (hp, Some e)
             | Inr pt \<Rightarrow> remove_each hp elem (iter hp elem (Some pt)))
          else (hp, None))"

definition replace_text_in_run_or_paragraph :: "heap \<Rightarrow> nat \<Rightarrow> string \<Rightarrow> heap \<times> error option" where
  "replace_text_in_run_or_paragraph hp elem t =
     (case strip_props hp elem ''w:r'' ''w:rPr'' of
        (hp1, Some e) \<Rightarrow> (hp1, Some e)
      | (hp1, None) \<Rightarrow>
          (case strip_props hp1 elem ''w:p'' ''w:pPr'' of
             (hp2, Some e) \<Rightarrow> (hp2, Some e)
           | (hp2, None) \<Rightarrow>
               (case expand namespaces ''w:t'' of
                  Inl e \<Rightarrow> (hp2, Some e)
                | Inr wt \<Rightarrow> (set_texts hp2 (iter hp2 elem (Some wt)) t, None))))"

subsection \<open>\<open>redact\<close>\<close>

text \<open>
  The loop over the highlights found before the loop starts.  The result is the
  redactor as the call leaves it and the exception, if one was raised; \<open>None\<close> when
  a parent walk does not return.
\<close>

fun redact_loop :: "redactor \<Rightarrow> nat list \<Rightarrow> string \<Rightarrow> (redactor \<times> error option) option" where
  "redact_loop st [] replacement = Some (st, None)"
| "redact_loop st (highlight # hs) replacement =
     (case get_run_or_paragraph_for_highlight st highlight of
        None \<Rightarrow> None
      | Some (Inl e) \<Rightarrow> Some (st, Some e)
      | Some (Inr None) \<Rightarrow>
          redact_loop (st\<lparr>stdout := stdout st @ [''Failed to successfully redact a highlight'']\<rparr>)
            hs replacement
      | Some (Inr (Some run)) \<Rightarrow>
          (case replace_text_in_run_or_paragraph (heap st) run replacement of
             (hp, Some e) \<Rightarrow> Some (st\<lparr>heap := hp\<rparr>, Some e)
           | (hp, None) \<Rightarrow> redact_loop (st\<lparr>heap := hp\<rparr>) hs replacement))"

definition redact :: "redactor \<Rightarrow> string \<Rightarrow> string \<Rightarrow> (redactor \<times> error option) option" where
  "redact st color replacement =
     (case check_open st of
        Some e \<Rightarrow> Some (st, Some e)
      | None \<Rightarrow>
          (case get_highlights st (Some color) of
             Inl e \<Rightarrow> Some (st, Some e)
           | Inr hs \<Rightarrow> redact_loop st hs replacement))"

section \<open>Example documents\<close>

text \<open>The qualified name of the WordprocessingML element or attribute \<open>l\<close>.\<close>

definition wq :: "string \<Rightarrow> string" where
  "wq l = ''{http://schemas.openxmlformats.org/wordprocessingml/2006/main}'' @ l"

definition w_elem :: "string \<Rightarrow> (string \<times> string) list \<Rightarrow> string option \<Rightarrow> nat list \<Rightarrow> element" where
  "w_elem l at tx cs = \<lparr>tag = wq l, attrib = at, etext = tx, tail = None, children = cs\<rparr>"

text \<open>A redactor that has opened a document whose parsed tree is \<open>hp\<close> with root \<open>0\<close>.\<close>

definition opened :: "heap \<Rightarrow> redactor" where
  "opened hp = \<lparr>is_open = True, path = Some ''a.docx'', doc_info = None, root = Some 0,
     parent_map = Some (build_parent_map hp 0), heap = hp, stdout = []\<rparr>"

text \<open>
  Two runs in one paragraph, highlighted yellow and green:
  \<^verbatim>\<open><w:document><w:body><w:p>
    <w:r><w:rPr><w:highlight w:val="yellow"/></w:rPr><w:t>secret1</w:t></w:r>
    <w:r><w:rPr><w:highlight w:val="green"/></w:rPr><w:t>secret2</w:t></w:r>
  </w:p></w:body></w:document>\<close>
\<close>

definition two_runs :: heap where
  "two_runs =
    [w_elem ''document'' [] None [1],
     w_elem ''body'' [] None [2],
     w_elem ''p'' [] None [3, 7],
     w_elem ''r'' [] None [4, 6],
     w_elem ''rPr'' [] None [5],
     w_elem ''highlight'' [(wq ''val'', ''yellow'')] None [],
     w_elem ''t'' [] (Some ''secret1'') [],
     w_elem ''r'' [] None [8, 10],
     w_elem ''rPr'' [] None [9],
     w_elem ''highlight'' [(wq ''val'', ''green'')] None [],
     w_elem ''t'' [] (Some ''secret2'') []]"

text \<open>
  A highlight marker without the \<^verbatim>\<open>w:val\<close> attribute after a yellow one:
  \<^verbatim>\<open><w:document><w:body><w:p>
    <w:r><w:rPr><w:highlight w:val="yellow"/></w:rPr><w:t>secret1</w:t></w:r>
    <w:r><w:rPr><w:highlight/></w:rPr><w:t>secret2</w:t></w:r>
  </w:p></w:body></w:document>\<close>
\<close>

definition no_val :: heap where
  "no_val =
    [w_elem ''document'' [] None [1],
     w_elem ''body'' [] None [2],
     w_elem ''p'' [] None [3, 7],
     w_elem ''r'' [] None [4, 6],
     w_elem ''rPr'' [] None [5],
     w_elem ''highlight'' [(wq ''val'', ''yellow'')] None [],
     w_elem ''t'' [] (Some ''secret1'') [],
     w_elem ''r'' [] None [8, 10],
     w_elem ''rPr'' [] None [9],
     w_elem ''highlight'' [] None [],
     w_elem ''t'' [] (Some ''secret2'') []]"

text \<open>A document without highlight markers: \<^verbatim>\<open><w:document><w:body/></w:document>\<close>.\<close>

definition empty_doc :: heap where
  "empty_doc = [w_elem ''document'' [] None [1], w_elem ''body'' [] None []]"

text \<open>
  A highlight marker directly under the body, outside any run or paragraph:
  \<^verbatim>\<open><w:document><w:body><w:highlight w:val="yellow"/></w:body></w:document>\<close>
\<close>

definition orphan :: heap where
  "orphan =
    [w_elem ''document'' [] None [1],
     w_elem ''body'' [] None [2],
     w_elem ''highlight'' [(wq ''val'', ''yellow'')] None []]"

text \<open>
  A highlighted run whose run properties record a tracked formatting change, so that a
  second \<^verbatim>\<open>w:rPr\<close> is nested in the first:
  \<^verbatim>\<open><w:document><w:body><w:p><w:r>
    <w:rPr><w:highlight w:val="yellow"/><w:rPrChange><w:rPr/></w:rPrChange></w:rPr>
    <w:t>secret</w:t>
  </w:r></w:p></w:body></w:document>\<close>
\<close>

definition tracked_change :: heap where
  "tracked_change =
    [w_elem ''document'' [] None [1],
     w_elem ''body'' [] None [2],
     w_elem ''p'' [] None [3],
     w_elem ''r'' [] None [4, 8],
     w_elem ''rPr'' [] None [5, 6],
     w_elem ''highlight'' [(wq ''val'', ''yellow'')] None [],
     w_elem ''rPrChange'' [] None [7],
     w_elem ''rPr'' [] None [],
     w_elem ''t'' [] (Some ''secret'') []]"

text \<open>
  A paragraph whose paragraph mark is highlighted yellow and whose only run is
  highlighted green:
  \<^verbatim>\<open><w:document><w:body><w:p>
    <w:pPr><w:rPr><w:highlight w:val="yellow"/></w:rPr></w:pPr>
    <w:r><w:rPr><w:highlight w:val="green"/></w:rPr><w:t>secret2</w:t></w:r>
  </w:p></w:body></w:document>\<close>
\<close>

definition paragraph_mark :: heap where
  "paragraph_mark =
    [w_elem ''document'' [] None [1],
     w_elem ''body'' [] None [2],
     w_elem ''p'' [] None [3, 6],
     w_elem ''pPr'' [] None [4],
     w_elem ''rPr'' [] None [5],
     w_elem ''highlight'' [(wq ''val'', ''yellow'')] None [],
     w_elem ''r'' [] None [7, 9],
     w_elem ''rPr'' [] None [8],
     w_elem ''highlight'' [(wq ''val'', ''green'')] None [],
     w_elem ''t'' [] (Some ''secret2'') []]"

text \<open>
  A paragraph whose paragraph mark is highlighted green and whose only run is
  highlighted yellow:
  \<^verbatim>\<open><w:document><w:body><w:p>
    <w:pPr><w:rPr><w:highlight w:val="green"/></w:rPr></w:pPr>
    <w:r><w:rPr><w:highlight w:val="yellow"/></w:rPr><w:t>secret2</w:t></w:r>
  </w:p></w:body></w:document>\<close>
\<close>

definition run_in_marked_paragraph :: heap where
  "run_in_marked_paragraph =
    [w_elem ''document'' [] None [1],
     w_elem ''body'' [] None [2],
     w_elem ''p'' [] None [3, 6],
     w_elem ''pPr'' [] None [4],
     w_elem ''rPr'' [] None [5],
     w_elem ''highlight'' [(wq ''val'', ''green'')] None [],
     w_elem ''r'' [] None [7, 9],
     w_elem ''rPr'' [] None [8],
     w_elem ''highlight'' [(wq ''val'', ''yellow'')] None [],
     w_elem ''t'' [] (Some ''secret2'') []]"

section \<open>Example archives\<close>










section \<open>Highlights outside any run or paragraph\<close>

text \<open>
  \<open>no_container tagf pm e\<close>: following the parent links from \<open>e\<close> one reaches an
  element without an entry in the parent map, and none of the elements passed on the
  way is a run or a paragraph.
\<close>

inductive no_container :: "(nat \<Rightarrow> string) \<Rightarrow> (nat \<Rightarrow> nat option) \<Rightarrow> nat \<Rightarrow> bool"
  for tagf :: "nat \<Rightarrow> string" and pm :: "nat \<Rightarrow> nat option" where
  no_entry: "pm e = None \<Longrightarrow> no_container tagf pm e"
| up: "pm e = Some p \<Longrightarrow> tagf p \<noteq> wq ''r'' \<Longrightarrow> tagf p \<noteq> wq ''p'' \<Longrightarrow>
       no_container tagf pm p \<Longrightarrow> no_container tagf pm e"

section \<open>Parent maps of parsed trees\<close>

text \<open>
  \<open>decreasing pm\<close>: every recorded parent is older than its child.  The parent map that
  \<open>open_doc\<close> builds from a well-formed heap is of this kind, and \<open>redact\<close> never assigns
  the parent map.
\<close>

definition decreasing :: "(nat \<Rightarrow> nat option) \<Rightarrow> bool" where
  "decreasing pm = (\<forall>c p. pm c = Some p \<longrightarrow> p < c)"

section \<open>What a redaction may change\<close>

text \<open>
  \<open>narrows hp hp'\<close>: the heap \<open>hp'\<close> has the elements of \<open>hp\<close> with the same tags, and
  no element has a child it did not have in \<open>hp\<close>.
\<close>

definition narrows :: "heap \<Rightarrow> heap \<Rightarrow> bool" where
  "narrows hp hp' =
     (length hp' = length hp
      \<and> (\<forall>n. tag (hp' ! n) = tag (hp ! n) \<and> set (children (hp' ! n)) \<subseteq> set (children (hp ! n))))"

text \<open>
  \<open>outside_containers st hs n\<close>: the element \<open>n\<close> is neither a run or paragraph found
  for one of the highlights \<open>hs\<close> nor a descendant of one.
\<close>

definition outside_containers :: "redactor \<Rightarrow> nat list \<Rightarrow> nat \<Rightarrow> bool" where
  "outside_containers st hs n =
     (\<forall>h\<in>set hs. \<forall>e. get_run_or_paragraph_for_highlight st h = Some (Inr (Some e)) \<longrightarrow>
        n \<notin> set (iter_all (heap st) e))"

text \<open>\<open>plain hp n\<close>: the element \<open>n\<close> is not a run, a paragraph or a text element.\<close>

definition plain :: "heap \<Rightarrow> nat \<Rightarrow> bool" where
  "plain hp n = (tag (hp ! n) \<noteq> wq ''r'' \<and> tag (hp ! n) \<noteq> wq ''p'' \<and> tag (hp ! n) \<noteq> wq ''t'')"

text \<open>
  \<open>prunes hp hp'\<close>: the heap \<open>hp'\<close> has the elements of \<open>hp\<close>, each with its tag, its
  attributes and its tail, and the child list of an element of \<open>hp'\<close> is its child list
  in \<open>hp\<close> from which run properties or paragraph properties were removed (each the
  first occurrence of a reference, as \<^verbatim>\<open>Element.remove\<close> does).  Only child lists and
  texts may differ.
\<close>

definition prunes :: "heap \<Rightarrow> heap \<Rightarrow> bool" where
  "prunes hp hp' =
     (length hp' = length hp
      \<and> (\<forall>n. tag (hp' ! n) = tag (hp ! n) \<and> attrib (hp' ! n) = attrib (hp ! n)
              \<and> tail (hp' ! n) = tail (hp ! n)
              \<and> (\<exists>xs. children (hp' ! n) = fold remove1 xs (children (hp ! n))
                      \<and> list_all (\<lambda>x. tag (hp ! x) = wq ''rPr'' \<or> tag (hp ! x) = wq ''pPr'') xs)))"

section \<open>Redacted containers\<close>

text \<open>
  \<open>tree_heap pm hp\<close>: the heap is well-formed, no element lists a child twice, and
  every child reference agrees with the parent map \<open>pm\<close>, so that no element has two
  parents.  This is the shape of a parsed tree with the parent map built from it, and
  removing children or assigning text keeps it.
\<close>

definition tree_heap :: "(nat \<Rightarrow> nat option) \<Rightarrow> heap \<Rightarrow> bool" where
  "tree_heap pm hp =
     (wf_heap hp
      \<and> list_all (\<lambda>p. distinct (children (hp ! p))
                       \<and> list_all (\<lambda>c. pm c = Some p) (children (hp ! p))) [0..<length hp])"

text \<open>
  \<open>redacted hp e R\<close>: what the redaction of the container \<open>e\<close> is to achieve.  A run has
  no run properties left at or below it, a paragraph no paragraph properties, and every
  text element at or below \<open>e\<close> has the text \<open>R\<close>.
\<close>

definition redacted :: "heap \<Rightarrow> nat \<Rightarrow> string \<Rightarrow> bool" where
  "redacted hp e R =
     ((tag (hp ! e) = wq ''r'' \<longrightarrow> iter hp e (Some (wq ''rPr'')) = [])
      \<and> (tag (hp ! e) = wq ''p'' \<longrightarrow> iter hp e (Some (wq ''pPr'')) = [])
      \<and> list_all (\<lambda>n. etext (hp ! n) = Some R) (iter hp e (Some (wq ''t''))))"

section \<open>\<open>expand\<close>\<close>

lemma split_colon_prefix:
  "CHR '':'' \<notin> set p \<Longrightarrow> split_colon (p @ CHR '':'' # l) = [p, l]"
  by (induction p) (auto simp: split_colon_def split: list.splits)

lemma expand_w [simp]: "expand namespaces (CHR ''w'' # CHR '':'' # l) = Inr (wq l)"
  by (simp add: expand_def split_colon_def namespaces_def wq_def)

text \<open>
  Claim C8, as stated, fails: for the prefix \<open>x\<close>, which is not in the table, \<open>expand\<close>
  raises \<^verbatim>\<open>SyntaxError\<close>, and \<^verbatim>\<open>SyntaxError\<close> is not a \<^verbatim>\<open>LookupError\<close>.
\<close>

theorem expand_unknown_prefix_counterexample:
  "map_of namespaces ''x'' = None
   \<and> expand namespaces ''x:val'' = Inl (SyntaxError ''x'')
   \<and> \<not> is_LookupError (SyntaxError ''x'')"
  by (simp add: expand_def split_colon_def namespaces_def)

text \<open>
  Claim C8, amended: for a tag \<open>prefix:local\<close> (the prefix is the text before the first
  colon), when the prefix is not a key of the namespace table \<open>expand\<close> raises the
  \<^verbatim>\<open>SyntaxError\<close> built from that prefix, which is not of the \<^verbatim>\<open>LookupError\<close> class;
  when the table binds the prefix to the URI \<open>u\<close>, \<open>expand\<close> returns \<open>{u}local\<close>.
\<close>

theorem expand_prefix_local:
  assumes "CHR '':'' \<notin> set prefix"
  shows "(map_of ns prefix = None \<longrightarrow>
            expand ns (prefix @ CHR '':'' # local) = Inl (SyntaxError prefix)
            \<and> \<not> is_LookupError (SyntaxError prefix))
       \<and> (\<forall>u. map_of ns prefix = Some u \<longrightarrow>
            expand ns (prefix @ CHR '':'' # local) = Inr (''{'' @ u @ ''}'' @ local))"
  using assms by (simp add: expand_def split_colon_prefix)

theorem expand_prefix_local_witness:
  "CHR '':'' \<notin> set ''zz'' \<and> map_of namespaces ''zz'' = None
   \<and> expand namespaces ''zz:t'' = Inl (SyntaxError ''zz'')
   \<and> CHR '':'' \<notin> set ''w''
   \<and> map_of namespaces ''w'' = Some ''http://schemas.openxmlformats.org/wordprocessingml/2006/main''
   \<and> expand namespaces ''w:t'' = Inr ''{http://schemas.openxmlformats.org/wordprocessingml/2006/main}t''"
  using expand_prefix_local [of "''zz''" namespaces "''t''"]
        expand_prefix_local [of "''w''" namespaces "''t''"]
  by (simp add: namespaces_def)

section \<open>Queries\<close>

lemma filter_color_ok:
  "\<forall>h\<in>set hs. map_of (attrib (hp ! h)) a \<noteq> None \<Longrightarrow>
   filter_color hp a c hs = Inr (filter (\<lambda>h. map_of (attrib (hp ! h)) a = Some c) hs)"
  by (induction hs) auto

lemma filter_color_KeyError:
  "h \<in> set hs \<Longrightarrow> map_of (attrib (hp ! h)) a = None \<Longrightarrow> filter_color hp a c hs = Inl (KeyError a)"
  by (induction hs) (auto split: option.splits sum.splits)

lemma map_Some_set:
  "map Some vs = map f hs \<Longrightarrow> set vs = {v. \<exists>h\<in>set hs. f h = Some v}"
proof (induction vs arbitrary: hs)
  case Nil
  then show ?case by simp
next
  case (Cons v vs)
  then obtain h hs' where hs: "hs = h # hs'" and h: "f h = Some v" and r: "map Some vs = map f hs'"
    by (cases hs) auto
  from Cons.IH [OF r] show ?case using hs h by auto
qed

lemma map_color_ok:
  "\<forall>h\<in>set hs. map_of (attrib (hp ! h)) (wq ''val'') \<noteq> None \<Longrightarrow>
   \<exists>vs. map_color hp hs = Inr vs \<and> map Some vs = map (\<lambda>h. map_of (attrib (hp ! h)) (wq ''val'')) hs"
  by (induction hs) auto

lemma map_color_KeyError:
  "h \<in> set hs \<Longrightarrow> map_of (attrib (hp ! h)) (wq ''val'') = None \<Longrightarrow>
   map_color hp hs = Inl (KeyError (wq ''val''))"
  by (induction hs) (auto split: option.splits sum.splits)

lemma iter_highlight:
  "iter hp r (Some (wq ''highlight'')) = filter (\<lambda>i. tag (hp ! i) = wq ''highlight'') (iter_all hp r)"
  by (simp add: iter_def wq_def)

lemma get_highlights_None:
  "root st = Some r \<Longrightarrow>
   get_highlights st None = Inr (filter (\<lambda>i. tag (heap st ! i) = wq ''highlight'') (iter_all (heap st) r))"
  by (simp add: get_highlights_def iter_highlight)

text \<open>
  Claim C5, as stated, fails: in the document \<open>no_val\<close> the second highlight marker
  has no \<^verbatim>\<open>w:val\<close> attribute, and \<open>get_highlights\<close> with the color \<open>yellow\<close> raises
  \<^verbatim>\<open>KeyError\<close> instead of returning the yellow marker \<open>5\<close>.
\<close>

theorem get_highlights_no_val_counterexample:
  "root (opened no_val) = Some 0
   \<and> get_highlights (opened no_val) None = Inr [5, 9]
   \<and> map_of (attrib (heap (opened no_val) ! 5)) (wq ''val'') = Some ''yellow''
   \<and> get_highlights (opened no_val) (Some ''yellow'') = Inl (KeyError (wq ''val''))"
  by code_simp

text \<open>
  Claim C5, amended: with the color omitted \<open>get_highlights\<close> returns all highlight
  markers of the tree in document order, for every open document; with a color \<open>c\<close>, and
  provided every highlight marker of the tree has the \<^verbatim>\<open>w:val\<close> attribute, it returns
  exactly the markers whose \<^verbatim>\<open>w:val\<close> is the string \<open>c\<close>, in document order.
\<close>

theorem get_highlights_filter:
  assumes "root st = Some r"
  shows "get_highlights st None =
           Inr (filter (\<lambda>h. tag (heap st ! h) = wq ''highlight'') (iter_all (heap st) r))
       \<and> ((\<forall>h\<in>set (iter_all (heap st) r). tag (heap st ! h) = wq ''highlight'' \<longrightarrow>
               map_of (attrib (heap st ! h)) (wq ''val'') \<noteq> None) \<longrightarrow>
          get_highlights st (Some c) =
            Inr (filter (\<lambda>h. tag (heap st ! h) = wq ''highlight''
                           \<and> map_of (attrib (heap st ! h)) (wq ''val'') = Some c)
                   (iter_all (heap st) r)))"
  using assms by (simp add: get_highlights_def iter_highlight filter_color_ok)

theorem get_highlights_filter_witness:
  "root (opened two_runs) = Some 0
   \<and> iter_all two_runs 0 = [0, 1, 2, 3, 4, 5, 6, 7, 8, 9, 10]
   \<and> get_highlights (opened two_runs) None = Inr [5, 9]
   \<and> get_highlights (opened two_runs) (Some ''green'') = Inr [9]"
proof -
  have r: "root (opened two_runs) = Some 0" by (simp add: opened_def)
  have it: "iter_all two_runs 0 = [0, 1, 2, 3, 4, 5, 6, 7, 8, 9, 10]" by code_simp
  have hp: "heap (opened two_runs) = two_runs" by (simp add: opened_def)
  have v: "\<forall>h\<in>set [0, 1, 2, 3, 4, 5, 6, 7, 8, 9, 10].
            tag (two_runs ! h) = wq ''highlight'' \<longrightarrow>
            map_of (attrib (two_runs ! h)) (wq ''val'') \<noteq> None"
    by (simp add: two_runs_def w_elem_def wq_def)
  have f1: "filter (\<lambda>h. tag (two_runs ! h) = wq ''highlight'') [0, 1, 2, 3, 4, 5, 6, 7, 8, 9, 10] = [5, 9]"
    by code_simp
  have f2: "filter (\<lambda>h. tag (two_runs ! h) = wq ''highlight''
                         \<and> map_of (attrib (two_runs ! h)) (wq ''val'') = Some ''green'')
              [0, 1, 2, 3, 4, 5, 6, 7, 8, 9, 10] = [9]"
    by code_simp
  note t = get_highlights_filter [OF r, of "''green''", unfolded hp it f1 f2]
  have a: "get_highlights (opened two_runs) None = Inr [5, 9]"
    using t by (rule conjunct1)
  have b: "get_highlights (opened two_runs) (Some ''green'') = Inr [9]"
    using t v by blast
  show ?thesis using r it a b by blast
qed

text \<open>
  Claim C6, as stated, fails: \<open>get_all_colors\<close> raises \<^verbatim>\<open>KeyError\<close> on the open document
  \<open>no_val\<close>, in which a highlight marker has no \<^verbatim>\<open>w:val\<close> attribute.
\<close>

theorem get_all_colors_no_val_counterexample:
  "is_open (opened no_val) \<and> root (opened no_val) = Some 0
   \<and> get_all_colors (opened no_val) = Inl (KeyError (wq ''val''))"
  by code_simp

text \<open>
  Claim C6, amended: on an open document without highlight markers \<open>get_all_colors\<close>
  returns the empty list; on an open document in which every highlight marker has the
  \<^verbatim>\<open>w:val\<close> attribute it returns the color tokens of the highlight markers, each once,
  in ascending order.  \<open>get_all_colors\<close> is a function of the redactor and assigns no
  field, so a second call without a mutation in between returns the same list.
\<close>

theorem get_all_colors_sorted:
  assumes "is_open st" and "root st = Some r"
  shows "((\<forall>h\<in>set (iter_all (heap st) r). tag (heap st ! h) \<noteq> wq ''highlight'') \<longrightarrow>
            get_all_colors st = Inr [])
       \<and> ((\<forall>h\<in>set (iter_all (heap st) r). tag (heap st ! h) = wq ''highlight'' \<longrightarrow>
               map_of (attrib (heap st ! h)) (wq ''val'') \<noteq> None) \<longrightarrow>
          (\<exists>cs. get_all_colors st = Inr cs \<and> sorted cs \<and> distinct cs
             \<and> set cs = {v. \<exists>h\<in>set (iter_all (heap st) r). tag (heap st ! h) = wq ''highlight''
                              \<and> map_of (attrib (heap st ! h)) (wq ''val'') = Some v}))"
proof (intro conjI impI)
  let ?hs = "filter (\<lambda>i. tag (heap st ! i) = wq ''highlight'') (iter_all (heap st) r)"
  have hs: "get_highlights st None = Inr ?hs"
    using assms(2) by (rule get_highlights_None)
  {
    assume "\<forall>h\<in>set (iter_all (heap st) r). tag (heap st ! h) \<noteq> wq ''highlight''"
    then have "?hs = []" by (simp add: filter_empty_conv)
    then show "get_all_colors st = Inr []"
      using assms(1) hs by (simp add: get_all_colors_def check_open_def)
  }
  {
    assume "\<forall>h\<in>set (iter_all (heap st) r). tag (heap st ! h) = wq ''highlight'' \<longrightarrow>
               map_of (attrib (heap st ! h)) (wq ''val'') \<noteq> None"
    then have "\<forall>h\<in>set ?hs. map_of (attrib (heap st ! h)) (wq ''val'') \<noteq> None" by simp
    from map_color_ok [OF this] obtain vs where
      vs: "map_color (heap st) ?hs = Inr vs"
      and m: "map Some vs = map (\<lambda>h. map_of (attrib (heap st ! h)) (wq ''val'')) ?hs"
      by blast
    have g: "get_all_colors st = Inr (sort (remdups vs))"
      using assms(1) hs vs by (simp add: get_all_colors_def check_open_def)
    have s: "set vs = {v. \<exists>h\<in>set ?hs. map_of (attrib (heap st ! h)) (wq ''val'') = Some v}"
      using m by (rule map_Some_set)
    have "set (sort (remdups vs)) = {v. \<exists>h\<in>set (iter_all (heap st) r). tag (heap st ! h) = wq ''highlight''
                              \<and> map_of (attrib (heap st ! h)) (wq ''val'') = Some v}"
      using s by auto
    then show "\<exists>cs. get_all_colors st = Inr cs \<and> sorted cs \<and> distinct cs
             \<and> set cs = {v. \<exists>h\<in>set (iter_all (heap st) r). tag (heap st ! h) = wq ''highlight''
                              \<and> map_of (attrib (heap st ! h)) (wq ''val'') = Some v}"
      using g by (intro exI [of _ "sort (remdups vs)"]) simp
  }
qed

theorem get_all_colors_sorted_witness:
  "is_open (opened empty_doc) \<and> root (opened empty_doc) = Some 0
   \<and> filter (\<lambda>h. tag (empty_doc ! h) = wq ''highlight'') (iter_all empty_doc 0) = []
   \<and> get_all_colors (opened empty_doc) = Inr []
   \<and> is_open (opened two_runs) \<and> root (opened two_runs) = Some 0
   \<and> filter (\<lambda>h. tag (two_runs ! h) = wq ''highlight''
                  \<and> map_of (attrib (two_runs ! h)) (wq ''val'') = None) (iter_all two_runs 0) = []
   \<and> (\<exists>cs. get_all_colors (opened two_runs) = Inr cs \<and> sorted cs \<and> distinct cs
          \<and> ''green'' \<in> set cs \<and> ''yellow'' \<in> set cs)"
proof -
  have o: "is_open (opened hp)" and r: "root (opened hp) = Some 0"
    and hp: "heap (opened hp) = hp" for hp
    by (simp_all add: opened_def)
  have it0: "iter_all empty_doc 0 = [0, 1]" by code_simp
  have it: "iter_all two_runs 0 = [0, 1, 2, 3, 4, 5, 6, 7, 8, 9, 10]" by code_simp
  have n: "\<forall>h\<in>set (iter_all empty_doc 0). tag (empty_doc ! h) \<noteq> wq ''highlight''"
    unfolding it0 by (simp add: empty_doc_def w_elem_def wq_def)
  have v: "\<forall>h\<in>set (iter_all two_runs 0). tag (two_runs ! h) = wq ''highlight'' \<longrightarrow>
            map_of (attrib (two_runs ! h)) (wq ''val'') \<noteq> None"
    unfolding it by (simp add: two_runs_def w_elem_def wq_def)
  have y: "5 \<in> set (iter_all two_runs 0) \<and> tag (two_runs ! 5) = wq ''highlight''
           \<and> map_of (attrib (two_runs ! 5)) (wq ''val'') = Some ''yellow''"
    unfolding it by (simp add: two_runs_def w_elem_def)
  have g: "9 \<in> set (iter_all two_runs 0) \<and> tag (two_runs ! 9) = wq ''highlight''
           \<and> map_of (attrib (two_runs ! 9)) (wq ''val'') = Some ''green''"
    unfolding it by (simp add: two_runs_def w_elem_def)
  note e = get_all_colors_sorted [OF o r, of empty_doc, unfolded hp]
  note t = get_all_colors_sorted [OF o r, of two_runs, unfolded hp]
  have a: "get_all_colors (opened empty_doc) = Inr []" using e n by blast
  from t v obtain cs where cs: "get_all_colors (opened two_runs) = Inr cs" "sorted cs" "distinct cs"
    and s: "set cs = {v. \<exists>h\<in>set (iter_all two_runs 0). tag (two_runs ! h) = wq ''highlight''
                              \<and> map_of (attrib (two_runs ! h)) (wq ''val'') = Some v}"
    by blast
  have "''green'' \<in> set cs" "''yellow'' \<in> set cs"
    unfolding s using y g by blast+
  with cs have b: "\<exists>cs. get_all_colors (opened two_runs) = Inr cs \<and> sorted cs \<and> distinct cs
          \<and> ''green'' \<in> set cs \<and> ''yellow'' \<in> set cs" by blast
  have n': "filter (\<lambda>h. tag (empty_doc ! h) = wq ''highlight'') (iter_all empty_doc 0) = []"
    using n by (simp add: filter_empty_conv)
  have v': "filter (\<lambda>h. tag (two_runs ! h) = wq ''highlight''
                  \<and> map_of (attrib (two_runs ! h)) (wq ''val'') = None) (iter_all two_runs 0) = []"
    using v by (simp add: filter_empty_conv)
  show ?thesis using o r n' a v' b by blast
qed

text \<open>
  Claim C10: when the tree of an open document contains a highlight marker without the
  \<^verbatim>\<open>w:val\<close> attribute, \<open>get_all_colors\<close> and \<open>get_highlights\<close> with a color raise the
  \<^verbatim>\<open>KeyError\<close> of the attribute lookup.
\<close>

theorem missing_val_KeyError:
  assumes "is_open st" and "root st = Some r"
    and "h \<in> set (iter_all (heap st) r)" and "tag (heap st ! h) = wq ''highlight''"
    and "map_of (attrib (heap st ! h)) (wq ''val'') = None"
  shows "get_all_colors st = Inl (KeyError (wq ''val''))
       \<and> get_highlights st (Some c) = Inl (KeyError (wq ''val''))"
proof -
  let ?hs = "filter (\<lambda>i. tag (heap st ! i) = wq ''highlight'') (iter_all (heap st) r)"
  have h: "h \<in> set ?hs" using assms(3,4) by simp
  have "get_highlights st None = Inr ?hs"
    using assms(2) by (rule get_highlights_None)
  moreover have "map_color (heap st) ?hs = Inl (KeyError (wq ''val''))"
    using h assms(5) by (rule map_color_KeyError)
  ultimately have "get_all_colors st = Inl (KeyError (wq ''val''))"
    using assms(1) by (simp add: get_all_colors_def check_open_def)
  moreover have "filter_color (heap st) (wq ''val'') c ?hs = Inl (KeyError (wq ''val''))"
    using h assms(5) by (rule filter_color_KeyError)
  then have "get_highlights st (Some c) = Inl (KeyError (wq ''val''))"
    using assms(2) by (simp add: get_highlights_def iter_highlight)
  ultimately show ?thesis by simp
qed

theorem missing_val_KeyError_witness:
  "is_open (opened no_val) \<and> root (opened no_val) = Some 0
   \<and> 9 \<in> set (iter_all no_val 0) \<and> tag (no_val ! 9) = wq ''highlight''
   \<and> map_of (attrib (no_val ! 9)) (wq ''val'') = None
   \<and> get_all_colors (opened no_val) = Inl (KeyError (wq ''val''))
   \<and> get_highlights (opened no_val) (Some ''green'') = Inl (KeyError (wq ''val''))"
proof -
  have o: "is_open (opened no_val)" and r: "root (opened no_val) = Some 0"
    and hp: "heap (opened no_val) = no_val"
    by (simp_all add: opened_def)
  have it: "iter_all no_val 0 = [0, 1, 2, 3, 4, 5, 6, 7, 8, 9, 10]" by code_simp
  have m: "9 \<in> set (iter_all no_val 0)" unfolding it by simp
  have t: "tag (no_val ! 9) = wq ''highlight''" by (simp add: no_val_def w_elem_def)
  have a: "map_of (attrib (no_val ! 9)) (wq ''val'') = None" by (simp add: no_val_def w_elem_def)
  from missing_val_KeyError [OF o r, unfolded hp, OF m t a, of "''green''"]
  show ?thesis using o r m t a by blast
qed

section \<open>Redaction\<close>

lemma parent_walk_no_container:
  "no_container tagf pm e \<Longrightarrow> parent_walk tagf pm e = Some (Inr None)"
proof (induction rule: no_container.induct)
  case (no_entry e)
  then show ?case by (subst parent_walk.simps) simp
next
  case (up e p)
  then show ?case by (subst parent_walk.simps) simp
qed

text \<open>
  Claim C7: for a highlight marker whose parent walk reaches an element without an entry
  in the parent map before it meets a run or a paragraph,
  \<open>get_run_or_paragraph_for_highlight\<close> returns \<^verbatim>\<open>None\<close> (it returns, and raises
  nothing), and the loop of \<open>redact\<close> prints its diagnostic line for that marker and goes
  on with the remaining highlights from a redactor whose tree and fields are otherwise
  the same.
\<close>

theorem unresolved_highlight_skipped:
  assumes "parent_map st = Some pm"
    and "no_container (\<lambda>n. tag (heap st ! n)) pm h"
  shows "get_run_or_paragraph_for_highlight st h = Some (Inr None)
       \<and> redact_loop st (h # hs) replacement =
           redact_loop (st\<lparr>stdout := stdout st @ [''Failed to successfully redact a highlight'']\<rparr>)
             hs replacement"
proof -
  have "get_run_or_paragraph_for_highlight st h = Some (Inr None)"
    using assms by (simp add: get_run_or_paragraph_for_highlight_def parent_walk_no_container)
  then show ?thesis by simp
qed

theorem unresolved_highlight_skipped_witness:
  "parent_map (opened orphan) = Some (build_parent_map orphan 0)
   \<and> no_container (\<lambda>n. tag (heap (opened orphan) ! n)) (build_parent_map orphan 0) 2
   \<and> get_highlights (opened orphan) (Some ''yellow'') = Inr [2]
   \<and> get_run_or_paragraph_for_highlight (opened orphan) 2 = Some (Inr None)
   \<and> redact (opened orphan) ''yellow'' ''X'' =
       Some ((opened orphan)\<lparr>stdout := [''Failed to successfully redact a highlight'']\<rparr>, None)"
proof -
  let ?pm = "build_parent_map orphan 0"
  let ?tagf = "\<lambda>n. tag (heap (opened orphan) ! n)"
  have pm: "parent_map (opened orphan) = Some ?pm" by (simp add: opened_def)
  have p2: "?pm 2 = Some 1" and p1: "?pm 1 = Some 0" and p0: "?pm 0 = None"
    by code_simp+
  have t: "?tagf 1 \<noteq> wq ''r''" "?tagf 1 \<noteq> wq ''p''" "?tagf 0 \<noteq> wq ''r''" "?tagf 0 \<noteq> wq ''p''"
    by (simp_all add: opened_def orphan_def w_elem_def wq_def)
  have n0: "no_container ?tagf ?pm 0" using p0 by (rule no_container.no_entry)
  have n1: "no_container ?tagf ?pm 1" using p1 t(3,4) n0 by (rule no_container.up)
  have n2: "no_container ?tagf ?pm 2" using p2 t(1,2) n1 by (rule no_container.up)
  have hs: "get_highlights (opened orphan) (Some ''yellow'') = Inr [2]" by code_simp
  note u = unresolved_highlight_skipped [OF pm n2, of "[]" "''X''"]
  have "redact (opened orphan) ''yellow'' ''X'' = redact_loop (opened orphan) [2] ''X''"
    using hs by (simp add: redact_def check_open_def opened_def)
  also have "\<dots> = Some ((opened orphan)\<lparr>stdout := [''Failed to successfully redact a highlight'']\<rparr>, None)"
    using u by (simp add: opened_def)
  finally show ?thesis using pm n2 hs u by blast
qed

text \<open>
  Claim C2 on the run \<open>3\<close> of \<open>tracked_change\<close>: the yellow marker \<open>5\<close> resolves to the
  run, \<^verbatim>\<open>elem.iter\<close> collects the run properties \<open>4\<close> and the nested ones \<open>7\<close>, the removal
  of \<open>7\<close>, which is not a child of the run, raises \<^verbatim>\<open>ValueError\<close>, and the text leaf \<open>8\<close>
  still reads \<open>secret\<close>.
\<close>

theorem redact_tracked_change_ValueError:
  "get_highlights (opened tracked_change) (Some ''yellow'') = Inr [5]
   \<and> get_run_or_paragraph_for_highlight (opened tracked_change) 5 = Some (Inr (Some 3))
   \<and> iter tracked_change 3 (Some (wq ''rPr'')) = [4, 7]
   \<and> iter tracked_change 3 (Some (wq ''t'')) = [8]
   \<and> map_option (\<lambda>(s, e). (e, children (heap s ! 3), etext (heap s ! 8)))
         (redact (opened tracked_change) ''yellow'' ''X'')
       = Some (Some ValueError, [8], Some ''secret'')"
  by code_simp

section \<open>The frame of \<open>redact\<close>\<close>

lemma narrows_refl: "narrows hp hp"
  by (simp add: narrows_def)

lemma narrows_trans: "narrows a b \<Longrightarrow> narrows b c \<Longrightarrow> narrows a c"
  unfolding narrows_def by (metis subset_trans)

lemma child_refs_narrows:
  "narrows hp hp' \<Longrightarrow> set (child_refs hp' n) \<subseteq> set (child_refs hp n)"
  unfolding narrows_def child_refs_def by auto

lemma iter_all_self: "n \<in> set (iter_all hp n)"
  by (subst iter_all.simps) simp

lemma iter_all_narrows:
  "narrows hp hp' \<Longrightarrow> set (iter_all hp' n) \<subseteq> set (iter_all hp n)"
proof (induction hp' n rule: iter_all.induct)
  case (1 hp' n)
  show ?case
  proof
    fix x assume "x \<in> set (iter_all hp' n)"
    then consider "x = n" | c where "c \<in> set (child_refs hp' n)" "x \<in> set (iter_all hp' c)"
      by (subst (asm) iter_all.simps) auto
    then show "x \<in> set (iter_all hp n)"
    proof cases
      case 1
      then show ?thesis by (simp add: iter_all_self)
    next
      case 2
      from 2(1) have c: "c \<in> set (child_refs hp n)"
        using child_refs_narrows [OF "1.prems"] by blast
      from "1.IH" [OF 2(1) "1.prems"] 2(2) have "x \<in> set (iter_all hp c)" by blast
      with c show ?thesis by (subst iter_all.simps) auto
    qed
  qed
qed

lemma nth_update_cases:
  "hp[m := v] ! n = (if n = m \<and> m < length hp then v else hp ! n)"
  by (cases "m < length hp") (auto simp: nth_list_update list_update_beyond)

lemma remove_each_frame:
  "remove_each hp e xs = (hp', err) \<Longrightarrow>
   narrows hp hp' \<and> (\<forall>n. n \<noteq> e \<longrightarrow> hp' ! n = hp ! n)"
proof (induction xs arbitrary: hp)
  case Nil
  then show ?case by (simp add: narrows_refl)
next
  case (Cons x xs)
  show ?case
  proof (cases "x \<in> set (children (hp ! e))")
    case False
    with Cons.prems show ?thesis by (simp add: narrows_refl)
  next
    case True
    let ?hp1 = "hp[e := (hp ! e)\<lparr>children := remove1 x (children (hp ! e))\<rparr>]"
    from True Cons.prems have "remove_each ?hp1 e xs = (hp', err)" by simp
    from Cons.IH [OF this] have n1: "narrows ?hp1 hp'" and f1: "\<forall>n. n \<noteq> e \<longrightarrow> hp' ! n = ?hp1 ! n"
      by blast+
    have n0: "narrows hp ?hp1"
      unfolding narrows_def
      by (auto simp: nth_update_cases dest: set_remove1_subset [THEN subsetD])
    have "\<forall>n. n \<noteq> e \<longrightarrow> hp' ! n = hp ! n" using f1 by simp
    with narrows_trans [OF n0 n1] show ?thesis by blast
  qed
qed

lemma set_texts_frame:
  "narrows hp (set_texts hp ns t) \<and> (\<forall>n. n \<notin> set ns \<longrightarrow> set_texts hp ns t ! n = hp ! n)"
proof (induction ns arbitrary: hp)
  case Nil
  then show ?case by (simp add: narrows_refl)
next
  case (Cons m ns)
  let ?hp1 = "hp[m := (hp ! m)\<lparr>etext := Some t\<rparr>]"
  have n0: "narrows hp ?hp1"
    unfolding narrows_def by (auto simp: nth_update_cases)
  from Cons.IH [of ?hp1] have n1: "narrows ?hp1 (set_texts ?hp1 ns t)"
    and f1: "\<forall>n. n \<notin> set ns \<longrightarrow> set_texts ?hp1 ns t ! n = ?hp1 ! n" by blast+
  have "\<forall>n. n \<notin> set (m # ns) \<longrightarrow> set_texts hp (m # ns) t ! n = hp ! n"
    using f1 by simp
  with narrows_trans [OF n0 n1] show ?case by simp
qed


lemma iter_wq:
  "iter hp n (Some (wq l)) = filter (\<lambda>i. tag (hp ! i) = wq l) (iter_all hp n)"
  by (simp add: iter_def wq_def)

lemma strip_props_frame:
  assumes "strip_props hp e (CHR ''w'' # CHR '':'' # c) ptag = (hp', err)"
  shows "narrows hp hp' \<and> (\<forall>n. n \<noteq> e \<or> tag (hp ! e) \<noteq> wq c \<longrightarrow> hp' ! n = hp ! n)"
proof (cases "tag (hp ! e) = wq c")
  case False
  with assms have "hp' = hp" by (simp add: strip_props_def)
  then show ?thesis by (simp add: narrows_refl)
next
  case True
  show ?thesis
  proof (cases "expand namespaces ptag")
    case (Inl x)
    with assms True have "hp' = hp" by (simp add: strip_props_def)
    then show ?thesis by (simp add: narrows_refl)
  next
    case (Inr pt)
    with assms True have "remove_each hp e (iter hp e (Some pt)) = (hp', err)"
      by (simp add: strip_props_def)
    from remove_each_frame [OF this] True show ?thesis by blast
  qed
qed

lemma replace_text_frame:
  assumes "replace_text_in_run_or_paragraph hp e t = (hp', err)"
  shows "narrows hp hp'
       \<and> (\<forall>n. n \<notin> set (iter_all hp e) \<longrightarrow> hp' ! n = hp ! n)
       \<and> (\<forall>n. tag (hp ! n) \<noteq> wq ''r'' \<and> tag (hp ! n) \<noteq> wq ''p'' \<and> tag (hp ! n) \<noteq> wq ''t''
              \<longrightarrow> hp' ! n = hp ! n)"
proof -
  obtain hp1 e1 where s1: "strip_props hp e ''w:r'' ''w:rPr'' = (hp1, e1)"
    by (cases "strip_props hp e ''w:r'' ''w:rPr''")
  obtain hp2 e2 where s2: "strip_props hp1 e ''w:p'' ''w:pPr'' = (hp2, e2)"
    by (cases "strip_props hp1 e ''w:p'' ''w:pPr''")
  from strip_props_frame [OF s1] have n1: "narrows hp hp1"
    and f1: "\<And>n. n \<noteq> e \<or> tag (hp ! e) \<noteq> wq ''r'' \<Longrightarrow> hp1 ! n = hp ! n" by blast+
  from strip_props_frame [OF s2] have n2: "narrows hp1 hp2"
    and f2: "\<And>n. n \<noteq> e \<or> tag (hp1 ! e) \<noteq> wq ''p'' \<Longrightarrow> hp2 ! n = hp1 ! n" by blast+
  have t1: "tag (hp1 ! n) = tag (hp ! n)" for n using n1 by (simp add: narrows_def)
  have n12: "narrows hp hp2" using n1 n2 by (rule narrows_trans)
  have t2: "tag (hp2 ! n) = tag (hp ! n)" for n using n12 by (simp add: narrows_def)
  have e: "e \<in> set (iter_all hp e)" by (rule iter_all_self)
  have a1: "hp1 ! n = hp ! n" if "n \<notin> set (iter_all hp e)" for n
    using that e by (intro f1) auto
  have a2: "hp2 ! n = hp ! n" if "n \<notin> set (iter_all hp e)" for n
  proof -
    from that e have "n \<noteq> e" by auto
    then have "hp2 ! n = hp1 ! n" by (intro f2) simp
    with a1 [OF that] show ?thesis by simp
  qed
  have b1: "hp1 ! n = hp ! n" if "tag (hp ! n) \<noteq> wq ''r''" for n
    using that by (cases "n = e") (auto intro: f1)
  have b2: "hp2 ! n = hp ! n" if "tag (hp ! n) \<noteq> wq ''r''" "tag (hp ! n) \<noteq> wq ''p''" for n
  proof -
    have "hp2 ! n = hp1 ! n"
      using that(2) t1 by (cases "n = e") (auto intro: f2)
    with b1 [OF that(1)] show ?thesis by simp
  qed
  let ?ns = "iter hp2 e (Some (wq ''t''))"
  have ns1: "m \<in> set (iter_all hp e)" if "m \<in> set ?ns" for m
    using that iter_all_narrows [OF n12, of e] by (auto simp: iter_wq)
  have ns2: "tag (hp ! m) = wq ''t''" if "m \<in> set ?ns" for m
    using that by (simp add: iter_wq t2)
  let ?hp3 = "set_texts hp2 ?ns t"
  from set_texts_frame [of hp2 ?ns t] have n3: "narrows hp2 ?hp3"
    and f3: "\<And>n. n \<notin> set ?ns \<Longrightarrow> ?hp3 ! n = hp2 ! n" by blast+
  have n13: "narrows hp ?hp3" using n12 n3 by (rule narrows_trans)
  have a3: "?hp3 ! n = hp ! n" if "n \<notin> set (iter_all hp e)" for n
  proof -
    from that ns1 have "n \<notin> set ?ns" by blast
    then have "?hp3 ! n = hp2 ! n" by (rule f3)
    with a2 [OF that] show ?thesis by simp
  qed
  have b3: "?hp3 ! n = hp ! n"
    if "tag (hp ! n) \<noteq> wq ''r''" "tag (hp ! n) \<noteq> wq ''p''" "tag (hp ! n) \<noteq> wq ''t''" for n
  proof -
    from that(3) ns2 have "n \<notin> set ?ns" by blast
    then have "?hp3 ! n = hp2 ! n" by (rule f3)
    with b2 [OF that(1,2)] show ?thesis by simp
  qed
  consider "hp' = hp1" | "hp' = hp2" | "hp' = ?hp3"
    using assms s1 s2
    by (auto simp: replace_text_in_run_or_paragraph_def split: option.splits)
  then show ?thesis
  proof cases
    case 1
    then show ?thesis using n1 a1 b1 by simp
  next
    case 2
    then show ?thesis using n12 a2 b2 by simp
  next
    case 3
    then show ?thesis using n13 a3 b3 by simp
  qed
qed


lemma get_run_cong:
  assumes "parent_map st1 = parent_map st" and "\<And>n. tag (heap st1 ! n) = tag (heap st ! n)"
  shows "get_run_or_paragraph_for_highlight st1 h = get_run_or_paragraph_for_highlight st h"
proof -
  have "(\<lambda>n. tag (heap st1 ! n)) = (\<lambda>n. tag (heap st ! n))"
    using assms(2) by (intro ext)
  with assms(1) show ?thesis
    by (simp add: get_run_or_paragraph_for_highlight_def split: option.splits)
qed

lemma redact_loop_frame:
  "redact_loop st hs R = Some (st', err) \<Longrightarrow>
   narrows (heap st) (heap st') \<and> parent_map st' = parent_map st
   \<and> (\<forall>n. plain (heap st) n \<longrightarrow> heap st' ! n = heap st ! n)
   \<and> (\<forall>n. outside_containers st hs n \<longrightarrow> heap st' ! n = heap st ! n)"
proof (induction hs arbitrary: st)
  case Nil
  then show ?case by (simp add: narrows_refl)
next
  case (Cons h hs)
  let ?g = "get_run_or_paragraph_for_highlight st h"
  from Cons.prems obtain res where g: "?g = Some res" by (cases ?g) auto
  show ?case
  proof (cases res)
    case (Inl x)
    with g Cons.prems have "st' = st" by simp
    then show ?thesis by (simp add: narrows_refl)
  next
    case (Inr r)
    show ?thesis
    proof (cases r)
      case None
      let ?st1 = "st\<lparr>stdout := stdout st @ [''Failed to successfully redact a highlight'']\<rparr>"
      from g Inr None Cons.prems have l: "redact_loop ?st1 hs R = Some (st', err)" by simp
      have c: "get_run_or_paragraph_for_highlight ?st1 k = get_run_or_paragraph_for_highlight st k" for k
        by (rule get_run_cong) simp_all
      have u: "outside_containers ?st1 hs n" if "outside_containers st (h # hs) n" for n
        using that by (simp add: outside_containers_def c)
      from Cons.IH [OF l] u show ?thesis by simp
    next
      case (Some run)
      obtain hp e1 where rt: "replace_text_in_run_or_paragraph (heap st) run R = (hp, e1)"
        by (cases "replace_text_in_run_or_paragraph (heap st) run R")
      from replace_text_frame [OF rt] have n1: "narrows (heap st) hp"
        and a1: "\<And>n. n \<notin> set (iter_all (heap st) run) \<Longrightarrow> hp ! n = heap st ! n"
        and b1: "\<And>n. plain (heap st) n \<Longrightarrow> hp ! n = heap st ! n"
        by (simp_all add: plain_def)
      have u1: "hp ! n = heap st ! n" if "outside_containers st (h # hs) n" for n
        using that g Inr Some by (intro a1) (simp add: outside_containers_def)
      show ?thesis
      proof (cases e1)
        case (Some x)
        with g Inr \<open>r = Some run\<close> rt Cons.prems have "st' = st\<lparr>heap := hp\<rparr>" by simp
        then show ?thesis using n1 b1 u1 by simp
      next
        case None
        let ?st1 = "st\<lparr>heap := hp\<rparr>"
        from g Inr \<open>r = Some run\<close> rt None Cons.prems
        have l: "redact_loop ?st1 hs R = Some (st', err)" by simp
        have tg: "tag (hp ! n) = tag (heap st ! n)" for n using n1 by (simp add: narrows_def)
        have c: "get_run_or_paragraph_for_highlight ?st1 k = get_run_or_paragraph_for_highlight st k" for k
          by (rule get_run_cong) (simp_all add: tg)
        from Cons.IH [OF l] have n2: "narrows hp (heap st')"
          and pm: "parent_map st' = parent_map st"
          and b2: "\<And>n. plain hp n \<Longrightarrow> heap st' ! n = hp ! n"
          and u2: "\<And>n. outside_containers ?st1 hs n \<Longrightarrow> heap st' ! n = hp ! n"
          by simp_all
        have b: "heap st' ! n = heap st ! n" if "plain (heap st) n" for n
        proof -
          from that have "plain hp n" by (simp add: plain_def tg)
          then have "heap st' ! n = hp ! n" by (rule b2)
          with b1 [OF that] show ?thesis by simp
        qed
        have u: "heap st' ! n = heap st ! n" if "outside_containers st (h # hs) n" for n
        proof -
          have "outside_containers ?st1 hs n"
            unfolding outside_containers_def
          proof (intro ballI allI impI)
            fix k e assume k: "k \<in> set hs"
              and "get_run_or_paragraph_for_highlight ?st1 k = Some (Inr (Some e))"
            then have "get_run_or_paragraph_for_highlight st k = Some (Inr (Some e))"
              by (simp add: c)
            with that k have "n \<notin> set (iter_all (heap st) e)" by (simp add: outside_containers_def)
            with iter_all_narrows [OF n1, of e] show "n \<notin> set (iter_all (heap ?st1) e)" by auto
          qed
          then have "heap st' ! n = hp ! n" by (rule u2)
          with u1 [OF that] show ?thesis by simp
        qed
        from narrows_trans [OF n1 n2] pm b u show ?thesis by simp
      qed
    qed
  qed
qed

subsection \<open>Well-formed heaps and returning walks\<close>

text \<open>
  On a well-formed heap the traversal follows every child reference; the parent map
  built from it is decreasing; on a decreasing parent map every walk returns, so
  \<open>redact\<close> returns; and what \<open>redact\<close> does to a heap keeps it well-formed.
\<close>

lemma wf_heap_iff:
  "wf_heap hp \<longleftrightarrow> (\<forall>n<length hp. \<forall>c\<in>set (children (hp ! n)). n < c \<and> c < length hp)"
  unfolding wf_heap_def list_all_iff by (simp add: Ball_def)

lemma wf_heap_child:
  "wf_heap hp \<Longrightarrow> n < length hp \<Longrightarrow> c \<in> set (children (hp ! n)) \<Longrightarrow> n < c \<and> c < length hp"
  unfolding wf_heap_iff by blast

lemma child_refs_wf:
  assumes "wf_heap hp" and "n < length hp"
  shows "child_refs hp n = children (hp ! n)"
proof -
  have "\<forall>c\<in>set (children (hp ! n)). n < c \<and> c < length hp"
    using wf_heap_child [OF assms] by blast
  then have "filter (\<lambda>c. n < c \<and> c < length hp) (children (hp ! n)) = children (hp ! n)"
    by (simp only: filter_id_conv)
  with assms(2) show ?thesis by (simp add: child_refs_def)
qed

lemma child_refs_in_heap: "c \<in> set (child_refs hp n) \<Longrightarrow> c < length hp"
  by (cases "n < length hp") (simp_all add: child_refs_def)

lemma iter_all_cases:
  "x \<in> set (iter_all hp n) \<Longrightarrow> x = n \<or> (\<exists>c\<in>set (child_refs hp n). x \<in> set (iter_all hp c))"
  by (subst (asm) iter_all.simps) auto

lemma iter_all_in_heap:
  "r < length hp \<Longrightarrow> x \<in> set (iter_all hp r) \<Longrightarrow> x < length hp"
proof (induction hp r arbitrary: x rule: iter_all.induct)
  case (1 hp n)
  from iter_all_cases [OF "1.prems"(2)]
  consider "x = n" | c where "c \<in> set (child_refs hp n)" "x \<in> set (iter_all hp c)"
    by blast
  then show ?case
  proof cases
    case 1
    with "1.prems"(1) show ?thesis by simp
  next
    case 2
    from 2(1) have "c < length hp" by (rule child_refs_in_heap)
    from "1.IH" [OF 2(1) this 2(2)] show ?thesis .
  qed
qed

lemma build_parent_map_decreasing:
  assumes "wf_heap hp" and "r < length hp"
  shows "decreasing (build_parent_map hp r)"
  unfolding decreasing_def
proof (intro allI impI)
  fix c p assume "build_parent_map hp r c = Some p"
  then have "(c, p) \<in> set (rev (concat (map (\<lambda>p. map (\<lambda>c. (c, p)) (children (hp ! p))) (iter hp r None))))"
    unfolding build_parent_map_def by (rule map_of_SomeD)
  then have p: "p \<in> set (iter_all hp r)" and c: "c \<in> set (children (hp ! p))"
    by (auto simp: iter_def)
  from iter_all_in_heap [OF assms(2) p] have "p < length hp" .
  from wf_heap_child [OF assms(1) this c] show "p < c" by simp
qed

lemma parent_walk_returns:
  assumes "decreasing pm"
  shows "\<exists>res. parent_walk tagf pm h = Some res"
proof (induction h rule: less_induct)
  case (less h)
  show ?case
  proof (cases "pm h")
    case None
    then show ?thesis by (subst parent_walk.simps) simp
  next
    case (Some p)
    with assms have "p < h" by (simp add: decreasing_def)
    from less.IH [OF this] obtain res where "parent_walk tagf pm p = Some res" by blast
    with Some show ?thesis by (subst parent_walk.simps) simp
  qed
qed

lemma get_run_returns:
  "\<forall>pm. parent_map st = Some pm \<longrightarrow> decreasing pm \<Longrightarrow>
   \<exists>res. get_run_or_paragraph_for_highlight st h = Some res"
  by (cases "parent_map st") (auto simp: get_run_or_paragraph_for_highlight_def parent_walk_returns)

lemma redact_loop_returns:
  "\<forall>pm. parent_map st = Some pm \<longrightarrow> decreasing pm \<Longrightarrow>
   \<exists>st' err. redact_loop st hs R = Some (st', err)"
proof (induction hs arbitrary: st)
  case Nil
  then show ?case by simp
next
  case (Cons h hs)
  from get_run_returns [OF Cons.prems] obtain res where
    g: "get_run_or_paragraph_for_highlight st h = Some res" by blast
  show ?case
  proof (cases res)
    case (Inl e)
    with g show ?thesis by simp
  next
    case (Inr r)
    show ?thesis
    proof (cases r)
      case None
      let ?st1 = "st\<lparr>stdout := stdout st @ [''Failed to successfully redact a highlight'']\<rparr>"
      have "\<forall>pm. parent_map ?st1 = Some pm \<longrightarrow> decreasing pm" using Cons.prems by simp
      from Cons.IH [OF this] g Inr None show ?thesis by simp
    next
      case (Some run)
      obtain hp e1 where rt: "replace_text_in_run_or_paragraph (heap st) run R = (hp, e1)"
        by (cases "replace_text_in_run_or_paragraph (heap st) run R")
      have "\<forall>pm. parent_map (st\<lparr>heap := hp\<rparr>) = Some pm \<longrightarrow> decreasing pm" using Cons.prems by simp
      from Cons.IH [OF this] g Inr Some rt show ?thesis by (cases e1) auto
    qed
  qed
qed

lemma redact_returns:
  "\<forall>pm. parent_map st = Some pm \<longrightarrow> decreasing pm \<Longrightarrow>
   \<exists>st' err. redact st c R = Some (st', err)"
  unfolding redact_def using redact_loop_returns [of st]
  by (auto split: option.splits sum.splits)

lemma narrows_wf_heap: "narrows hp hp' \<Longrightarrow> wf_heap hp \<Longrightarrow> wf_heap hp'"
  unfolding narrows_def wf_heap_iff by (metis subsetD)

lemma wf_examples:
  "wf_heap two_runs" "wf_heap no_val" "wf_heap empty_doc" "wf_heap orphan"
  "wf_heap tracked_change" "wf_heap paragraph_mark"
  by code_simp+

text \<open>
  Claim C3, as stated, fails: in \<open>paragraph_mark\<close> the green marker \<open>8\<close> lies in the run
  \<open>6\<close> whose text leaf \<open>9\<close> reads \<open>secret2\<close>; the yellow marker of the paragraph mark
  resolves to the paragraph, so \<open>redact\<close> with the color \<open>yellow\<close> returns normally and has
  overwritten the text leaf of the green run.
\<close>

theorem redact_paragraph_mark_counterexample:
  "tag (paragraph_mark ! 8) = wq ''highlight''
   \<and> map_of (attrib (paragraph_mark ! 8)) (wq ''val'') = Some ''green''
   \<and> get_run_or_paragraph_for_highlight (opened paragraph_mark) 8 = Some (Inr (Some 6))
   \<and> iter paragraph_mark 6 (Some (wq ''t'')) = [9]
   \<and> etext (paragraph_mark ! 9) = Some ''secret2''
   \<and> map_option (\<lambda>(s, e). (e, etext (heap s ! 9)))
         (redact (opened paragraph_mark) ''yellow'' ''X'')
       = Some (None, Some ''X'')"
  by code_simp

lemma redact_frame_returned:
  assumes "redact st c R = Some (st', err)"
  shows "length (heap st') = length (heap st)
       \<and> (\<forall>n. tag (heap st' ! n) = tag (heap st ! n))
       \<and> (\<forall>n. tag (heap st ! n) \<noteq> wq ''r'' \<and> tag (heap st ! n) \<noteq> wq ''p''
                \<and> tag (heap st ! n) \<noteq> wq ''t'' \<longrightarrow> heap st' ! n = heap st ! n)
       \<and> (\<forall>hs n. get_highlights st (Some c) = Inr hs \<longrightarrow> outside_containers st hs n \<longrightarrow>
                heap st' ! n = heap st ! n)"
proof (cases "check_open st")
  case (Some e)
  with assms have "st' = st" by (simp add: redact_def)
  then show ?thesis by simp
next
  case None
  show ?thesis
  proof (cases "get_highlights st (Some c)")
    case (Inl e)
    with None assms have "st' = st" by (simp add: redact_def)
    then show ?thesis by simp
  next
    case (Inr hs)
    with None assms have "redact_loop st hs R = Some (st', err)" by (simp add: redact_def)
    from redact_loop_frame [OF this] Inr show ?thesis
      by (simp add: narrows_def plain_def)
  qed
qed

lemma redact_parent_map:
  assumes "redact st c R = Some (st', err)"
  shows "parent_map st' = parent_map st"
proof (cases "check_open st")
  case (Some e)
  with assms show ?thesis by (simp add: redact_def)
next
  case None
  show ?thesis
  proof (cases "get_highlights st (Some c)")
    case (Inl e)
    with None assms show ?thesis by (simp add: redact_def)
  next
    case (Inr hs)
    with None assms have "redact_loop st hs R = Some (st', err)" by (simp add: redact_def)
    from redact_loop_frame [OF this] show ?thesis by simp
  qed
qed

section \<open>Redaction that returns normally\<close>

text \<open>
  Apart from nested formatting overrides as in \<open>tracked_change\<close>, the redaction does
  what claim C2 asks: on the tree of an opened document, when \<open>redact\<close>
  returns without an exception, every run or paragraph found for a highlight of the
  given color is \<open>redacted\<close> in the resulting heap.
\<close>

lemma tree_heap_iff:
  "tree_heap pm hp \<longleftrightarrow>
     (wf_heap hp \<and> (\<forall>p<length hp. distinct (children (hp ! p))
                        \<and> (\<forall>c\<in>set (children (hp ! p)). pm c = Some p)))"
  unfolding tree_heap_def list_all_iff by (simp add: Ball_def)

lemma tree_heap_wf: "tree_heap pm hp \<Longrightarrow> wf_heap hp"
  by (simp add: tree_heap_iff)

lemma tree_heap_parent:
  "tree_heap pm hp \<Longrightarrow> p < length hp \<Longrightarrow> c \<in> set (children (hp ! p)) \<Longrightarrow> pm c = Some p"
  unfolding tree_heap_iff by blast

lemma tree_heap_distinct:
  "tree_heap pm hp \<Longrightarrow> p < length hp \<Longrightarrow> distinct (children (hp ! p))"
  unfolding tree_heap_iff by blast

lemma wf_heap_shrink:
  assumes "wf_heap hp" and "length hp' = length hp"
    and "\<And>n. set (children (hp' ! n)) \<subseteq> set (children (hp ! n))"
  shows "wf_heap hp'"
  unfolding wf_heap_iff
proof (intro allI impI ballI)
  fix n c assume "n < length hp'" and "c \<in> set (children (hp' ! n))"
  with assms(2,3) have "n < length hp" and "c \<in> set (children (hp ! n))" by auto
  from wf_heap_child [OF assms(1) this] assms(2) show "n < c \<and> c < length hp'" by simp
qed

lemma tree_heap_shrink:
  assumes "tree_heap pm hp" and "length hp' = length hp"
    and "\<And>n. set (children (hp' ! n)) \<subseteq> set (children (hp ! n))"
    and "\<And>n. distinct (children (hp ! n)) \<Longrightarrow> distinct (children (hp' ! n))"
  shows "tree_heap pm hp'"
  unfolding tree_heap_iff
proof (intro conjI allI impI)
  show "wf_heap hp'"
    using tree_heap_wf [OF assms(1)] assms(2,3) by (rule wf_heap_shrink)
next
  fix p assume "p < length hp'"
  then have p: "p < length hp" using assms(2) by simp
  show "distinct (children (hp' ! p))"
    using tree_heap_distinct [OF assms(1) p] by (rule assms(4))
  show "\<forall>c\<in>set (children (hp' ! p)). pm c = Some p"
    using tree_heap_parent [OF assms(1) p] assms(3) [of p] by blast
qed

lemma tree_heap_remove1:
  assumes "tree_heap pm hp"
  shows "tree_heap pm (hp[e := (hp ! e)\<lparr>children := remove1 x (children (hp ! e))\<rparr>])"
proof -
  let ?hp = "hp[e := (hp ! e)\<lparr>children := remove1 x (children (hp ! e))\<rparr>]"
  have c: "children (?hp ! n) = children (hp ! n) \<or> children (?hp ! n) = remove1 x (children (hp ! n))" for n
    by (simp add: nth_update_cases)
  have s: "set (children (?hp ! n)) \<subseteq> set (children (hp ! n))" for n
    using c [of n] set_remove1_subset [of x "children (hp ! n)"] by auto
  have d: "distinct (children (?hp ! n))" if "distinct (children (hp ! n))" for n
    using c [of n] that by (auto simp: distinct_remove1)
  have l: "length ?hp = length hp" by simp
  show ?thesis using assms l s d by (rule tree_heap_shrink)
qed

lemma tree_heap_etext:
  assumes "tree_heap pm hp"
  shows "tree_heap pm (hp[m := (hp ! m)\<lparr>etext := t\<rparr>])"
proof -
  let ?hp = "hp[m := (hp ! m)\<lparr>etext := t\<rparr>]"
  have c: "children (?hp ! n) = children (hp ! n)" for n
    by (simp add: nth_update_cases)
  have l: "length ?hp = length hp" by simp
  show ?thesis using assms l by (rule tree_heap_shrink) (simp_all add: c)
qed

lemma remove_each_tree:
  "tree_heap pm hp \<Longrightarrow> remove_each hp e xs = (hp', err) \<Longrightarrow> tree_heap pm hp'"
proof (induction xs arbitrary: hp)
  case Nil
  then show ?case by simp
next
  case (Cons x xs)
  show ?case
  proof (cases "x \<in> set (children (hp ! e))")
    case True
    with Cons.prems(2) have
      "remove_each (hp[e := (hp ! e)\<lparr>children := remove1 x (children (hp ! e))\<rparr>]) e xs = (hp', err)"
      by simp
    from Cons.IH [OF tree_heap_remove1 [OF Cons.prems(1)] this] show ?thesis .
  next
    case False
    with Cons.prems show ?thesis by simp
  qed
qed

lemma set_texts_tree: "tree_heap pm hp \<Longrightarrow> tree_heap pm (set_texts hp ns t)"
  by (induction ns arbitrary: hp) (simp_all add: tree_heap_etext)

lemma remove_each_ok:
  "remove_each hp e xs = (hp', None) \<Longrightarrow> e < length hp \<Longrightarrow> distinct (children (hp ! e)) \<Longrightarrow>
   set xs \<subseteq> set (children (hp ! e)) \<and> set (children (hp' ! e)) \<inter> set xs = {}"
proof (induction xs arbitrary: hp)
  case Nil
  then show ?case by simp
next
  case (Cons x xs)
  let ?cs = "children (hp ! e)"
  let ?hp1 = "hp[e := (hp ! e)\<lparr>children := remove1 x ?cs\<rparr>]"
  from Cons.prems(1) have x: "x \<in> set ?cs" by (auto split: if_splits)
  with Cons.prems(1) have r: "remove_each ?hp1 e xs = (hp', None)" by simp
  have c1: "children (?hp1 ! e) = remove1 x ?cs" using Cons.prems(2) by simp
  have l1: "e < length ?hp1" using Cons.prems(2) by simp
  have d1: "distinct (children (?hp1 ! e))" using Cons.prems(3) c1 by (simp add: distinct_remove1)
  from Cons.IH [OF r l1 d1] have i1: "set xs \<subseteq> set (remove1 x ?cs)"
    and i2: "set (children (hp' ! e)) \<inter> set xs = {}" by (simp_all add: c1)
  from remove_each_frame [OF r] have "narrows ?hp1 hp'" by blast
  then have "set (children (hp' ! e)) \<subseteq> set (children (?hp1 ! e))"
    unfolding narrows_def by blast
  then have "set (children (hp' ! e)) \<subseteq> set (remove1 x ?cs)"
    by (simp only: c1)
  moreover have "x \<notin> set (remove1 x ?cs)" using Cons.prems(3) by simp
  ultimately have "x \<notin> set (children (hp' ! e))" by blast
  with i1 i2 x set_remove1_subset [of x ?cs] show ?case by auto
qed

lemma iter_all_child:
  "c \<in> set (child_refs hp n) \<Longrightarrow> x \<in> set (iter_all hp c) \<Longrightarrow> x \<in> set (iter_all hp n)"
  by (subst iter_all.simps) auto

lemma child_refs_children: "c \<in> set (child_refs hp n) \<Longrightarrow> n < length hp \<and> c \<in> set (children (hp ! n))"
  by (cases "n < length hp") (simp_all add: child_refs_def)

lemma iter_all_parent:
  "tree_heap pm hp \<Longrightarrow> x \<in> set (iter_all hp e) \<Longrightarrow> x \<noteq> e \<Longrightarrow>
   \<exists>p. pm x = Some p \<and> p < length hp \<and> p \<in> set (iter_all hp e) \<and> x \<in> set (children (hp ! p))"
proof (induction hp e arbitrary: x rule: iter_all.induct)
  case (1 hp n)
  from iter_all_cases [OF "1.prems"(2)] "1.prems"(3)
  obtain c where c: "c \<in> set (child_refs hp n)" and x: "x \<in> set (iter_all hp c)"
    by blast
  show ?case
  proof (cases "x = c")
    case True
    from child_refs_children [OF c] have n: "n < length hp" and m: "c \<in> set (children (hp ! n))"
      by simp_all
    from tree_heap_parent [OF "1.prems"(1) n m] have "pm c = Some n" .
    with True n m iter_all_self [of n hp] show ?thesis by blast
  next
    case False
    from "1.IH" [OF c "1.prems"(1) x False] obtain p where
      "pm x = Some p" "p < length hp" "p \<in> set (iter_all hp c)" "x \<in> set (children (hp ! p))"
      by blast
    with iter_all_child [OF c] show ?thesis by blast
  qed
qed

lemma strip_props_removed:
  assumes "tree_heap pm hp" and "e < length hp"
    and "strip_props hp e (CHR ''w'' # CHR '':'' # c) (CHR ''w'' # CHR '':'' # pc) = (hp', None)"
    and "tag (hp ! e) = wq c" and "wq c \<noteq> wq pc"
  shows "iter hp' e (Some (wq pc)) = []"
proof -
  let ?xs = "iter hp e (Some (wq pc))"
  from assms(3,4) have r: "remove_each hp e ?xs = (hp', None)" by (simp add: strip_props_def)
  from remove_each_frame [OF r] have n: "narrows hp hp'" by blast
  from remove_each_ok [OF r assms(2) tree_heap_distinct [OF assms(1,2)]]
  have sub: "set ?xs \<subseteq> set (children (hp ! e))"
    and dis: "set (children (hp' ! e)) \<inter> set ?xs = {}" by simp_all
  from remove_each_tree [OF assms(1) r] have t': "tree_heap pm hp'" .
  have tg: "tag (hp' ! n) = tag (hp ! n)" for n using n by (simp add: narrows_def)
  have "y \<notin> set (iter hp' e (Some (wq pc)))" for y
  proof
    assume "y \<in> set (iter hp' e (Some (wq pc)))"
    then have y': "y \<in> set (iter_all hp' e)" and ty: "tag (hp ! y) = wq pc"
      by (simp_all add: iter_wq tg)
    from y' iter_all_narrows [OF n, of e] have "y \<in> set (iter_all hp e)" by blast
    with ty have yx: "y \<in> set ?xs" by (simp add: iter_wq)
    with sub have "y \<in> set (children (hp ! e))" by blast
    from tree_heap_parent [OF assms(1,2) this] have pe: "pm y = Some e" .
    from ty assms(4,5) have "y \<noteq> e" by auto
    from iter_all_parent [OF t' y' this] obtain p where
      "pm y = Some p" "y \<in> set (children (hp' ! p))" by blast
    with pe have "y \<in> set (children (hp' ! e))" by simp
    with dis yx show False by blast
  qed
  then show ?thesis by (cases "iter hp' e (Some (wq pc))") auto
qed

lemma parent_walk_result:
  assumes "decreasing pm"
  shows "parent_walk tagf pm h = Some (Inr (Some e)) \<Longrightarrow> \<exists>x. pm x = Some e"
proof (induction h rule: less_induct)
  case (less h)
  show ?case
  proof (cases "pm h")
    case None
    with less.prems show ?thesis by (subst (asm) parent_walk.simps) simp
  next
    case (Some p)
    with assms have lt: "p < h" by (simp add: decreasing_def)
    show ?thesis
    proof (cases "tagf p = wq ''r'' \<or> tagf p = wq ''p''")
      case True
      with Some less.prems have "e = p"
        by (subst (asm) parent_walk.simps) (auto split: if_splits)
      with Some show ?thesis by blast
    next
      case False
      with Some less.prems have "parent_walk tagf pm p = Some (Inr (Some e))"
        by (subst (asm) parent_walk.simps) simp
      from less.IH [OF lt this] show ?thesis .
    qed
  qed
qed

lemma set_texts_sets:
  "n \<in> set ns \<Longrightarrow> n < length hp \<Longrightarrow> etext (set_texts hp ns t ! n) = Some t"
proof (induction ns arbitrary: hp)
  case Nil
  then show ?case by simp
next
  case (Cons m ns)
  let ?hp1 = "hp[m := (hp ! m)\<lparr>etext := Some t\<rparr>]"
  show ?case
  proof (cases "n \<in> set ns")
    case True
    from Cons.IH [OF True, of ?hp1] Cons.prems(2) show ?thesis by simp
  next
    case False
    with Cons.prems(1) have "n = m" by simp
    from set_texts_frame [of ?hp1 ns t] False have "set_texts ?hp1 ns t ! n = ?hp1 ! n" by blast
    with \<open>n = m\<close> Cons.prems(2) show ?thesis by simp
  qed
qed

lemma remove_each_etext:
  "remove_each hp e xs = (hp', err) \<Longrightarrow> etext (hp' ! n) = etext (hp ! n)"
proof (induction xs arbitrary: hp)
  case Nil
  then show ?case by simp
next
  case (Cons x xs)
  show ?case
  proof (cases "x \<in> set (children (hp ! e))")
    case True
    let ?hp1 = "hp[e := (hp ! e)\<lparr>children := remove1 x (children (hp ! e))\<rparr>]"
    from True Cons.prems have "remove_each ?hp1 e xs = (hp', err)" by simp
    from Cons.IH [OF this] have "etext (hp' ! n) = etext (?hp1 ! n)" .
    also have "\<dots> = etext (hp ! n)" by (simp add: nth_update_cases)
    finally show ?thesis .
  next
    case False
    with Cons.prems show ?thesis by simp
  qed
qed

lemma set_texts_etext:
  "etext (set_texts hp ns t ! n) = etext (hp ! n) \<or> etext (set_texts hp ns t ! n) = Some t"
proof (induction ns arbitrary: hp)
  case Nil
  then show ?case by simp
next
  case (Cons m ns)
  let ?hp1 = "hp[m := (hp ! m)\<lparr>etext := Some t\<rparr>]"
  have "etext (?hp1 ! n) = etext (hp ! n) \<or> etext (?hp1 ! n) = Some t"
    by (simp add: nth_update_cases)
  with Cons.IH [of ?hp1] show ?case by auto
qed

lemma strip_props_cases:
  "strip_props hp e ctag ptag = (hp', err) \<Longrightarrow>
   hp' = hp \<or> (\<exists>xs. remove_each hp e xs = (hp', err))"
  by (auto simp: strip_props_def split: sum.splits if_splits)

lemma strip_props_etext:
  "strip_props hp e ctag ptag = (hp', err) \<Longrightarrow> etext (hp' ! n) = etext (hp ! n)"
  using strip_props_cases [of hp e ctag ptag hp' err] remove_each_etext [of hp e _ hp' err n]
  by blast

lemma strip_props_tree:
  "tree_heap pm hp \<Longrightarrow> strip_props hp e ctag ptag = (hp', err) \<Longrightarrow> tree_heap pm hp'"
  using strip_props_cases [of hp e ctag ptag hp' err] remove_each_tree [of pm hp e _ hp' err]
  by blast

lemma replace_text_cases:
  assumes "replace_text_in_run_or_paragraph hp e t = (hp', err)"
  obtains hp1 e1 hp2 e2 where
    "strip_props hp e ''w:r'' ''w:rPr'' = (hp1, e1)"
    "strip_props hp1 e ''w:p'' ''w:pPr'' = (hp2, e2)"
    "(e1 \<noteq> None \<and> hp' = hp1 \<and> err = e1)
     \<or> (e1 = None \<and> e2 \<noteq> None \<and> hp' = hp2 \<and> err = e2)
     \<or> (e1 = None \<and> e2 = None \<and> err = None
          \<and> hp' = set_texts hp2 (iter hp2 e (Some (wq ''t''))) t)"
proof -
  obtain hp1 e1 where s1: "strip_props hp e ''w:r'' ''w:rPr'' = (hp1, e1)"
    by (cases "strip_props hp e ''w:r'' ''w:rPr''")
  obtain hp2 e2 where s2: "strip_props hp1 e ''w:p'' ''w:pPr'' = (hp2, e2)"
    by (cases "strip_props hp1 e ''w:p'' ''w:pPr''")
  from assms s1 s2 have
    "(e1 \<noteq> None \<and> hp' = hp1 \<and> err = e1)
     \<or> (e1 = None \<and> e2 \<noteq> None \<and> hp' = hp2 \<and> err = e2)
     \<or> (e1 = None \<and> e2 = None \<and> err = None
          \<and> hp' = set_texts hp2 (iter hp2 e (Some (wq ''t''))) t)"
    by (auto simp: replace_text_in_run_or_paragraph_def split: option.splits)
  with s1 s2 show ?thesis by (rule that)
qed

lemma replace_text_etext:
  assumes "replace_text_in_run_or_paragraph hp e t = (hp', err)"
  shows "etext (hp' ! n) = etext (hp ! n) \<or> etext (hp' ! n) = Some t"
proof -
  from assms obtain hp1 e1 hp2 e2 where
    s1: "strip_props hp e ''w:r'' ''w:rPr'' = (hp1, e1)"
    and s2: "strip_props hp1 e ''w:p'' ''w:pPr'' = (hp2, e2)"
    and c: "hp' = hp1 \<or> hp' = hp2 \<or> hp' = set_texts hp2 (iter hp2 e (Some (wq ''t''))) t"
    by (rule replace_text_cases) blast
  have a1: "etext (hp1 ! n) = etext (hp ! n)" using s1 by (rule strip_props_etext)
  have "etext (hp2 ! n) = etext (hp1 ! n)" using s2 by (rule strip_props_etext)
  with a1 have a2: "etext (hp2 ! n) = etext (hp ! n)" by simp
  from c a1 a2 set_texts_etext [of hp2 "iter hp2 e (Some (wq ''t''))" t n] show ?thesis by auto
qed

lemma replace_text_tree:
  assumes "tree_heap pm hp" and "replace_text_in_run_or_paragraph hp e t = (hp', err)"
  shows "tree_heap pm hp'"
proof -
  from assms(2) obtain hp1 e1 hp2 e2 where
    s1: "strip_props hp e ''w:r'' ''w:rPr'' = (hp1, e1)"
    and s2: "strip_props hp1 e ''w:p'' ''w:pPr'' = (hp2, e2)"
    and c: "hp' = hp1 \<or> hp' = hp2 \<or> hp' = set_texts hp2 (iter hp2 e (Some (wq ''t''))) t"
    by (rule replace_text_cases) blast
  from strip_props_tree [OF assms(1) s1] have t1: "tree_heap pm hp1" .
  from strip_props_tree [OF t1 s2] have t2: "tree_heap pm hp2" .
  from c t1 t2 set_texts_tree [OF t2] show ?thesis by auto
qed

lemma iter_empty_narrows:
  assumes "narrows a b" and "iter a e (Some (wq l)) = []"
  shows "iter b e (Some (wq l)) = []"
proof -
  have tg: "tag (b ! n) = tag (a ! n)" for n using assms(1) by (simp add: narrows_def)
  have "set (iter b e (Some (wq l))) \<subseteq> set (iter a e (Some (wq l)))"
    using iter_all_narrows [OF assms(1), of e] by (auto simp: iter_wq tg)
  with assms(2) show ?thesis by simp
qed

lemma redacted_narrows:
  assumes "redacted hp e R" and "narrows hp hp'"
    and "\<And>n. etext (hp' ! n) = etext (hp ! n) \<or> etext (hp' ! n) = Some R"
  shows "redacted hp' e R"
proof -
  have tg: "tag (hp' ! n) = tag (hp ! n)" for n using assms(2) by (simp add: narrows_def)
  have t: "etext (hp' ! n) = Some R" if "n \<in> set (iter hp' e (Some (wq ''t'')))" for n
  proof -
    from that iter_all_narrows [OF assms(2), of e] have "n \<in> set (iter hp e (Some (wq ''t'')))"
      by (auto simp: iter_wq tg)
    with assms(1) have "etext (hp ! n) = Some R" by (simp add: redacted_def list_all_iff)
    with assms(3) [of n] show ?thesis by auto
  qed
  from assms(1) have "tag (hp ! e) = wq ''r'' \<longrightarrow> iter hp' e (Some (wq ''rPr'')) = []"
    and "tag (hp ! e) = wq ''p'' \<longrightarrow> iter hp' e (Some (wq ''pPr'')) = []"
    using iter_empty_narrows [OF assms(2), of e] by (auto simp: redacted_def)
  with t show ?thesis by (simp add: redacted_def list_all_iff tg)
qed

lemma wq_inject: "wq a = wq b \<longleftrightarrow> a = b"
  by (simp add: wq_def)

lemma replace_text_redacted:
  assumes "tree_heap pm hp" and "e < length hp"
    and "replace_text_in_run_or_paragraph hp e R = (hp', None)"
  shows "redacted hp' e R"
proof -
  let ?ns = "\<lambda>h. iter h e (Some (wq ''t''))"
  from assms(3) obtain hp1 e1 hp2 e2 where
    s1': "strip_props hp e ''w:r'' ''w:rPr'' = (hp1, e1)"
    and s2': "strip_props hp1 e ''w:p'' ''w:pPr'' = (hp2, e2)"
    and c: "(e1 \<noteq> None \<and> hp' = hp1 \<and> None = e1)
     \<or> (e1 = None \<and> e2 \<noteq> None \<and> hp' = hp2 \<and> None = e2)
     \<or> (e1 = None \<and> e2 = None \<and> hp' = set_texts hp2 (iter hp2 e (Some (wq ''t''))) R)"
    by (rule replace_text_cases) blast
  from c have e1: "e1 = None" and e2: "e2 = None" and h: "hp' = set_texts hp2 (?ns hp2) R"
    by auto
  from s1' e1 have s1: "strip_props hp e ''w:r'' ''w:rPr'' = (hp1, None)" by simp
  from s2' e2 have s2: "strip_props hp1 e ''w:p'' ''w:pPr'' = (hp2, None)" by simp
  from strip_props_frame [OF s1] have n1: "narrows hp hp1" by blast
  from strip_props_frame [OF s2] have n2: "narrows hp1 hp2" by blast
  from set_texts_frame [of hp2 "?ns hp2" R] h have n3: "narrows hp2 hp'" by simp
  have t1: "tree_heap pm hp1" using assms(1) s1 by (rule strip_props_tree)
  have l1: "e < length hp1" using n1 assms(2) by (simp add: narrows_def)
  have tg1: "tag (hp1 ! n) = tag (hp ! n)" for n using n1 by (simp add: narrows_def)
  have tg2: "tag (hp2 ! n) = tag (hp1 ! n)" for n using n2 by (simp add: narrows_def)
  have tg3: "tag (hp' ! n) = tag (hp2 ! n)" for n using n3 by (simp add: narrows_def)
  have r: "iter hp' e (Some (wq ''rPr'')) = []" if "tag (hp ! e) = wq ''r''"
  proof -
    have "iter hp1 e (Some (wq ''rPr'')) = []"
      using assms(1,2) s1 that by (rule strip_props_removed) (simp add: wq_inject)
    from iter_empty_narrows [OF n2 this] have "iter hp2 e (Some (wq ''rPr'')) = []" .
    from iter_empty_narrows [OF n3 this] show ?thesis .
  qed
  have p: "iter hp' e (Some (wq ''pPr'')) = []" if "tag (hp ! e) = wq ''p''"
  proof -
    from that have "tag (hp1 ! e) = wq ''p''" by (simp add: tg1)
    with t1 l1 s2 have "iter hp2 e (Some (wq ''pPr'')) = []"
      by (rule strip_props_removed) (simp add: wq_inject)
    from iter_empty_narrows [OF n3 this] show ?thesis .
  qed
  have t: "etext (hp' ! n) = Some R" if "n \<in> set (?ns hp')" for n
  proof -
    from that iter_all_narrows [OF n3, of e] have m: "n \<in> set (?ns hp2)"
      by (auto simp: iter_wq tg3)
    then have "n \<in> set (iter_all hp2 e)" by (simp add: iter_wq)
    moreover have "e < length hp2" using n2 l1 by (simp add: narrows_def)
    ultimately have "n < length hp2" by (rule iter_all_in_heap [rotated])
    with m show ?thesis unfolding h by (rule set_texts_sets)
  qed
  from r p t show ?thesis by (simp add: redacted_def list_all_iff tg3 tg2 tg1)
qed

lemma build_parent_map_in_heap:
  assumes "r < length hp" and "build_parent_map hp r c = Some p"
  shows "p < length hp"
proof -
  from assms(2) have "(c, p) \<in> set (rev (concat (map (\<lambda>p. map (\<lambda>c. (c, p)) (children (hp ! p))) (iter hp r None))))"
    unfolding build_parent_map_def by (rule map_of_SomeD)
  then have "p \<in> set (iter_all hp r)" by (auto simp: iter_def)
  with assms(1) show ?thesis by (rule iter_all_in_heap)
qed

lemma get_run_in_heap:
  assumes "parent_map st = Some pm" and "decreasing pm"
    and "\<forall>c p. pm c = Some p \<longrightarrow> p < length (heap st)"
    and "get_run_or_paragraph_for_highlight st h = Some (Inr (Some e))"
  shows "e < length (heap st)"
proof -
  from assms(1,4) have "parent_walk (\<lambda>n. tag (heap st ! n)) pm h = Some (Inr (Some e))"
    by (simp add: get_run_or_paragraph_for_highlight_def)
  from parent_walk_result [OF assms(2) this] assms(3) show ?thesis by blast
qed

lemma redact_loop_redacted:
  assumes "decreasing pm"
  shows "parent_map st = Some pm \<Longrightarrow> \<forall>c p. pm c = Some p \<longrightarrow> p < length (heap st) \<Longrightarrow>
    tree_heap pm (heap st) \<Longrightarrow> redact_loop st hs R = Some (st', None) \<Longrightarrow>
    (\<forall>e. redacted (heap st) e R \<longrightarrow> redacted (heap st') e R)
    \<and> (\<forall>h\<in>set hs. \<forall>e. get_run_or_paragraph_for_highlight st h = Some (Inr (Some e)) \<longrightarrow>
          redacted (heap st') e R)"
proof (induction hs arbitrary: st)
  case Nil
  then show ?case by simp
next
  case (Cons h hs)
  let ?g = "get_run_or_paragraph_for_highlight st h"
  from Cons.prems(4) obtain res where g: "?g = Some res" by (cases ?g) auto
  show ?case
  proof (cases res)
    case (Inl x)
    with g Cons.prems(4) show ?thesis by simp
  next
    case (Inr r)
    show ?thesis
    proof (cases r)
      case None
      let ?st1 = "st\<lparr>stdout := stdout st @ [''Failed to successfully redact a highlight'']\<rparr>"
      from g Inr None Cons.prems(4) have l: "redact_loop ?st1 hs R = Some (st', None)" by simp
      have c: "get_run_or_paragraph_for_highlight ?st1 k = get_run_or_paragraph_for_highlight st k" for k
        by (rule get_run_cong) simp_all
      from Cons.IH [of ?st1, OF _ _ _ l] Cons.prems(1-3)
      have "(\<forall>e. redacted (heap st) e R \<longrightarrow> redacted (heap st') e R)
        \<and> (\<forall>k\<in>set hs. \<forall>e. get_run_or_paragraph_for_highlight st k = Some (Inr (Some e)) \<longrightarrow>
              redacted (heap st') e R)"
        by (simp add: c)
      with g Inr None show ?thesis by simp
    next
      case (Some run)
      obtain hp e1 where rt: "replace_text_in_run_or_paragraph (heap st) run R = (hp, e1)"
        by (cases "replace_text_in_run_or_paragraph (heap st) run R")
      from g Inr Some rt Cons.prems(4) have e1: "e1 = None"
        by (cases e1) auto
      let ?st1 = "st\<lparr>heap := hp\<rparr>"
      from g Inr Some rt e1 Cons.prems(4) have l: "redact_loop ?st1 hs R = Some (st', None)"
        by simp
      from g Inr Some have gr: "?g = Some (Inr (Some run))" by simp
      from get_run_in_heap [OF Cons.prems(1) assms Cons.prems(2) gr]
      have run: "run < length (heap st)" .
      from replace_text_frame [OF rt] have n1: "narrows (heap st) hp" by blast
      have tg: "tag (hp ! n) = tag (heap st ! n)" for n using n1 by (simp add: narrows_def)
      have len: "length hp = length (heap st)" using n1 by (simp add: narrows_def)
      have c: "get_run_or_paragraph_for_highlight ?st1 k = get_run_or_paragraph_for_highlight st k" for k
        by (rule get_run_cong) (simp_all add: tg)
      have t1: "tree_heap pm hp" using Cons.prems(3) rt by (rule replace_text_tree)
      have r1: "redacted hp run R"
        using Cons.prems(3) run rt [unfolded e1] by (rule replace_text_redacted)
      have keep: "redacted hp e R" if "redacted (heap st) e R" for e
        using that n1 replace_text_etext [OF rt] by (rule redacted_narrows)
      from Cons.IH [of ?st1, OF _ _ _ l] Cons.prems(1,2) t1 len
      have A: "\<And>e. redacted hp e R \<Longrightarrow> redacted (heap st') e R"
        and B: "\<And>k e. k \<in> set hs \<Longrightarrow> get_run_or_paragraph_for_highlight st k = Some (Inr (Some e)) \<Longrightarrow>
              redacted (heap st') e R"
        by (simp_all add: c)
      have "redacted (heap st') e R" if "redacted (heap st) e R" for e
        using keep [OF that] by (rule A)
      moreover have "redacted (heap st') e R"
        if "k \<in> set (h # hs)" "get_run_or_paragraph_for_highlight st k = Some (Inr (Some e))" for k e
      proof (cases "k = h")
        case True
        with that(2) gr have "e = run" by simp
        with r1 show ?thesis by (simp add: A)
      next
        case False
        with that(1) have "k \<in> set hs" by simp
        from B [OF this that(2)] show ?thesis .
      qed
      ultimately show ?thesis by blast
    qed
  qed
qed

lemma redact_redacted:
  assumes "parent_map st = Some pm" and "decreasing pm"
    and "\<forall>c p. pm c = Some p \<longrightarrow> p < length (heap st)"
    and "tree_heap pm (heap st)"
    and "redact st c R = Some (st', None)"
    and "get_highlights st (Some c) = Inr hs" and "h \<in> set hs"
    and "get_run_or_paragraph_for_highlight st h = Some (Inr (Some e))"
  shows "redacted (heap st') e R"
proof -
  from assms(5,6) have "redact_loop st hs R = Some (st', None)"
    by (cases "check_open st") (simp_all add: redact_def)
  from redact_loop_redacted [OF assms(2,1,3,4) this] assms(7,8) show ?thesis by blast
qed

lemma redact_two_runs_redacted:
  "\<exists>st'. redact (opened two_runs) ''yellow'' ''[REDACTED]'' = Some (st', None)
     \<and> redacted (heap st') 3 ''[REDACTED]''"
proof -
  let ?st = "opened two_runs"
  let ?pm = "build_parent_map two_runs 0"
  have pm: "parent_map ?st = Some ?pm" and hp: "heap ?st = two_runs" by (simp_all add: opened_def)
  have r0: "0 < length two_runs" by (simp add: two_runs_def)
  from wf_examples(1) r0 have dec: "decreasing ?pm" by (rule build_parent_map_decreasing)
  have inh: "\<forall>c p. ?pm c = Some p \<longrightarrow> p < length (heap ?st)"
    using build_parent_map_in_heap [OF r0] by (simp add: hp)
  have tr: "tree_heap ?pm (heap ?st)" unfolding hp by code_simp
  have "map_option snd (redact ?st ''yellow'' ''[REDACTED]'') = Some None" by code_simp
  then obtain st' where r: "redact ?st ''yellow'' ''[REDACTED]'' = Some (st', None)"
    by (cases "redact ?st ''yellow'' ''[REDACTED]''") auto
  have hs: "get_highlights ?st (Some ''yellow'') = Inr [5]" by code_simp
  have g: "get_run_or_paragraph_for_highlight ?st 5 = Some (Inr (Some 3))" by code_simp
  from redact_redacted [OF pm dec inh tr r hs _ g] r show ?thesis by auto
qed

section \<open>What \<open>redact\<close> changes, element by element\<close>

lemma prunes_refl: "prunes hp hp"
proof -
  have "children (hp ! n) = fold remove1 [] (children (hp ! n))
        \<and> list_all (\<lambda>x. tag (hp ! x) = wq ''rPr'' \<or> tag (hp ! x) = wq ''pPr'') []" for n
    by simp
  then have "\<exists>xs. children (hp ! n) = fold remove1 xs (children (hp ! n))
        \<and> list_all (\<lambda>x. tag (hp ! x) = wq ''rPr'' \<or> tag (hp ! x) = wq ''pPr'') xs" for n
    by blast
  then show ?thesis by (simp add: prunes_def)
qed

lemma prunes_trans:
  assumes "prunes a b" and "prunes b c"
  shows "prunes a c"
  unfolding prunes_def
proof (intro conjI allI)
  show "length c = length a" using assms by (simp add: prunes_def)
next
  fix n
  have tb: "tag (b ! x) = tag (a ! x)" for x using assms(1) by (simp add: prunes_def)
  show "tag (c ! n) = tag (a ! n)" using assms by (simp add: prunes_def)
  show "attrib (c ! n) = attrib (a ! n)" using assms by (simp add: prunes_def)
  show "tail (c ! n) = tail (a ! n)" using assms by (simp add: prunes_def)
  from assms(1) obtain xs where xs: "children (b ! n) = fold remove1 xs (children (a ! n))"
    and tx: "list_all (\<lambda>x. tag (a ! x) = wq ''rPr'' \<or> tag (a ! x) = wq ''pPr'') xs"
    unfolding prunes_def by blast
  from assms(2) obtain ys where ys: "children (c ! n) = fold remove1 ys (children (b ! n))"
    and ty: "list_all (\<lambda>x. tag (b ! x) = wq ''rPr'' \<or> tag (b ! x) = wq ''pPr'') ys"
    unfolding prunes_def by blast
  from xs ys have "children (c ! n) = fold remove1 (xs @ ys) (children (a ! n))" by simp
  moreover from tx ty
  have "list_all (\<lambda>x. tag (a ! x) = wq ''rPr'' \<or> tag (a ! x) = wq ''pPr'') (xs @ ys)"
    by (simp add: tb)
  ultimately
  show "\<exists>zs. children (c ! n) = fold remove1 zs (children (a ! n))
           \<and> list_all (\<lambda>x. tag (a ! x) = wq ''rPr'' \<or> tag (a ! x) = wq ''pPr'') zs"
    by blast
qed

lemma prunes_update_children:
  assumes "tag (hp ! x) = wq ''rPr'' \<or> tag (hp ! x) = wq ''pPr''"
  shows "prunes hp (hp[e := (hp ! e)\<lparr>children := remove1 x (children (hp ! e))\<rparr>])"
  unfolding prunes_def
proof (intro conjI allI)
  fix n
  let ?hp = "hp[e := (hp ! e)\<lparr>children := remove1 x (children (hp ! e))\<rparr>]"
  let ?P = "list_all (\<lambda>x. tag (hp ! x) = wq ''rPr'' \<or> tag (hp ! x) = wq ''pPr'')"
  have "(children (?hp ! n) = fold remove1 [] (children (hp ! n)) \<and> ?P [])
        \<or> (children (?hp ! n) = fold remove1 [x] (children (hp ! n)) \<and> ?P [x])"
    using assms by (simp add: nth_update_cases)
  then show "\<exists>xs. children (?hp ! n) = fold remove1 xs (children (hp ! n)) \<and> ?P xs" by blast
qed (simp_all add: nth_update_cases)

lemma prunes_update_etext: "prunes hp (hp[m := (hp ! m)\<lparr>etext := t\<rparr>])"
  unfolding prunes_def
proof (intro conjI allI)
  fix n
  let ?hp = "hp[m := (hp ! m)\<lparr>etext := t\<rparr>]"
  let ?P = "list_all (\<lambda>x. tag (hp ! x) = wq ''rPr'' \<or> tag (hp ! x) = wq ''pPr'')"
  have "children (?hp ! n) = fold remove1 [] (children (hp ! n)) \<and> ?P []"
    by (simp add: nth_update_cases)
  then show "\<exists>xs. children (?hp ! n) = fold remove1 xs (children (hp ! n)) \<and> ?P xs" by blast
qed (simp_all add: nth_update_cases)

lemma remove_each_prunes:
  "remove_each hp e xs = (hp', err) \<Longrightarrow>
   list_all (\<lambda>x. tag (hp ! x) = wq ''rPr'' \<or> tag (hp ! x) = wq ''pPr'') xs \<Longrightarrow> prunes hp hp'"
proof (induction xs arbitrary: hp)
  case Nil
  then show ?case by (simp add: prunes_refl)
next
  case (Cons x xs)
  show ?case
  proof (cases "x \<in> set (children (hp ! e))")
    case False
    with Cons.prems show ?thesis by (simp add: prunes_refl)
  next
    case True
    let ?hp1 = "hp[e := (hp ! e)\<lparr>children := remove1 x (children (hp ! e))\<rparr>]"
    from True Cons.prems have r: "remove_each ?hp1 e xs = (hp', err)" by simp
    have t: "tag (?hp1 ! y) = tag (hp ! y)" for y by (simp add: nth_update_cases)
    from Cons.prems(2)
    have "list_all (\<lambda>x. tag (?hp1 ! x) = wq ''rPr'' \<or> tag (?hp1 ! x) = wq ''pPr'') xs"
      by (simp add: t)
    from Cons.IH [OF r this] have p1: "prunes ?hp1 hp'" .
    from Cons.prems(2) have "tag (hp ! x) = wq ''rPr'' \<or> tag (hp ! x) = wq ''pPr''" by simp
    from prunes_update_children [OF this] p1 show ?thesis by (rule prunes_trans)
  qed
qed

lemma set_texts_prunes: "prunes hp (set_texts hp ns t)"
proof (induction ns arbitrary: hp)
  case Nil
  then show ?case by (simp add: prunes_refl)
next
  case (Cons m ns)
  let ?hp1 = "hp[m := (hp ! m)\<lparr>etext := Some t\<rparr>]"
  from prunes_update_etext Cons.IH [of ?hp1] have "prunes hp (set_texts ?hp1 ns t)"
    by (rule prunes_trans)
  then show ?case by simp
qed

lemma set_texts_children: "children (set_texts hp ns t ! n) = children (hp ! n)"
proof (induction ns arbitrary: hp)
  case Nil
  then show ?case by simp
next
  case (Cons m ns)
  let ?hp1 = "hp[m := (hp ! m)\<lparr>etext := Some t\<rparr>]"
  have "children (?hp1 ! n) = children (hp ! n)" by (simp add: nth_update_cases)
  with Cons.IH [of ?hp1] show ?case by simp
qed

lemma strip_props_prunes:
  assumes "strip_props hp e ctag (CHR ''w'' # CHR '':'' # l) = (hp', err)"
    and "l = ''rPr'' \<or> l = ''pPr''"
  shows "prunes hp hp'"
proof (cases "expand namespaces ctag")
  case (Inl x)
  with assms(1) have "hp' = hp" by (simp add: strip_props_def)
  then show ?thesis by (simp add: prunes_refl)
next
  case (Inr ct)
  show ?thesis
  proof (cases "tag (hp ! e) = ct")
    case False
    with Inr assms(1) have "hp' = hp" by (simp add: strip_props_def)
    then show ?thesis by (simp add: prunes_refl)
  next
    case True
    with Inr assms(1) have r: "remove_each hp e (iter hp e (Some (wq l))) = (hp', err)"
      by (simp add: strip_props_def)
    have "list_all (\<lambda>x. tag (hp ! x) = wq l) (iter hp e (Some (wq l)))"
      by (simp add: iter_wq list_all_iff)
    with assms(2)
    have "list_all (\<lambda>x. tag (hp ! x) = wq ''rPr'' \<or> tag (hp ! x) = wq ''pPr'')
            (iter hp e (Some (wq l)))"
      by (auto simp: list_all_iff)
    with r show ?thesis by (rule remove_each_prunes)
  qed
qed

lemma replace_text_changes:
  assumes "replace_text_in_run_or_paragraph hp e R = (hp', err)"
  shows "prunes hp hp'
       \<and> (\<forall>n. children (hp' ! n) \<noteq> children (hp ! n) \<longrightarrow>
              n = e \<and> (tag (hp ! e) = wq ''r'' \<or> tag (hp ! e) = wq ''p''))
       \<and> (\<forall>n. etext (hp' ! n) \<noteq> etext (hp ! n) \<longrightarrow>
              etext (hp' ! n) = Some R \<and> tag (hp ! n) = wq ''t'' \<and> n \<in> set (iter_all hp e))"
proof -
  let ?ns = "\<lambda>h. iter h e (Some (wq ''t''))"
  from assms obtain hp1 e1 hp2 e2 where
    s1: "strip_props hp e ''w:r'' ''w:rPr'' = (hp1, e1)"
    and s2: "strip_props hp1 e ''w:p'' ''w:pPr'' = (hp2, e2)"
    and c: "hp' = hp1 \<or> hp' = hp2 \<or> hp' = set_texts hp2 (?ns hp2) R"
    by (rule replace_text_cases) blast
  from strip_props_frame [OF s1] have n1: "narrows hp hp1"
    and f1: "\<And>n. n \<noteq> e \<or> tag (hp ! e) \<noteq> wq ''r'' \<Longrightarrow> hp1 ! n = hp ! n" by blast+
  from strip_props_frame [OF s2] have n2: "narrows hp1 hp2"
    and f2: "\<And>n. n \<noteq> e \<or> tag (hp1 ! e) \<noteq> wq ''p'' \<Longrightarrow> hp2 ! n = hp1 ! n" by blast+
  have n12: "narrows hp hp2" using n1 n2 by (rule narrows_trans)
  have t1: "tag (hp1 ! n) = tag (hp ! n)" for n using n1 by (simp add: narrows_def)
  have t2: "tag (hp2 ! n) = tag (hp ! n)" for n using n12 by (simp add: narrows_def)
  have p1: "prunes hp hp1" using s1 by (rule strip_props_prunes) simp
  have p2: "prunes hp1 hp2" using s2 by (rule strip_props_prunes) simp
  have p12: "prunes hp hp2" using p1 p2 by (rule prunes_trans)
  have p13: "prunes hp (set_texts hp2 (?ns hp2) R)"
    using p12 set_texts_prunes by (rule prunes_trans)
  have P: "prunes hp hp'" using c p1 p12 p13 by auto
  have c1: "n = e \<and> tag (hp ! e) = wq ''r''" if "children (hp1 ! n) \<noteq> children (hp ! n)" for n
  proof (rule ccontr)
    assume "\<not> (n = e \<and> tag (hp ! e) = wq ''r'')"
    then have "n \<noteq> e \<or> tag (hp ! e) \<noteq> wq ''r''" by blast
    from f1 [OF this] that show False by simp
  qed
  have c2: "n = e \<and> tag (hp ! e) = wq ''p''" if "children (hp2 ! n) \<noteq> children (hp1 ! n)" for n
  proof (rule ccontr)
    assume "\<not> (n = e \<and> tag (hp ! e) = wq ''p'')"
    then have "n \<noteq> e \<or> tag (hp1 ! e) \<noteq> wq ''p''" by (simp add: t1)
    from f2 [OF this] that show False by simp
  qed
  have c12: "n = e \<and> (tag (hp ! e) = wq ''r'' \<or> tag (hp ! e) = wq ''p'')"
    if d: "children (hp2 ! n) \<noteq> children (hp ! n)" for n
  proof (cases "children (hp1 ! n) = children (hp ! n)")
    case True
    with d have "children (hp2 ! n) \<noteq> children (hp1 ! n)" by simp
    from c2 [OF this] show ?thesis by simp
  next
    case False
    from c1 [OF this] show ?thesis by simp
  qed
  have c13: "children (set_texts hp2 (?ns hp2) R ! n) = children (hp2 ! n)" for n
    by (rule set_texts_children)
  have C: "n = e \<and> (tag (hp ! e) = wq ''r'' \<or> tag (hp ! e) = wq ''p'')"
    if d: "children (hp' ! n) \<noteq> children (hp ! n)" for n
  proof -
    from c consider "hp' = hp1" | "hp' = hp2" | "hp' = set_texts hp2 (?ns hp2) R" by blast
    then show ?thesis
    proof cases
      case 1
      with d have "children (hp1 ! n) \<noteq> children (hp ! n)" by simp
      from c1 [OF this] show ?thesis by simp
    next
      case 2
      with d have "children (hp2 ! n) \<noteq> children (hp ! n)" by simp
      from c12 [OF this] show ?thesis .
    next
      case 3
      with d c13 [of n] have "children (hp2 ! n) \<noteq> children (hp ! n)" by simp
      from c12 [OF this] show ?thesis .
    qed
  qed
  have e1: "etext (hp1 ! n) = etext (hp ! n)" for n using s1 by (rule strip_props_etext)
  have "etext (hp2 ! n) = etext (hp1 ! n)" for n using s2 by (rule strip_props_etext)
  with e1 have e2: "etext (hp2 ! n) = etext (hp ! n)" for n by simp
  have E3: "etext (set_texts hp2 (?ns hp2) R ! n) = Some R \<and> tag (hp ! n) = wq ''t''
            \<and> n \<in> set (iter_all hp e)"
    if d: "etext (set_texts hp2 (?ns hp2) R ! n) \<noteq> etext (hp ! n)" for n
  proof -
    from set_texts_frame [of hp2 "?ns hp2" R] d e2 [of n] have m: "n \<in> set (?ns hp2)" by auto
    then have "tag (hp ! n) = wq ''t''" by (simp add: iter_wq t2)
    moreover from m iter_all_narrows [OF n12, of e] have "n \<in> set (iter_all hp e)"
      by (auto simp: iter_wq)
    moreover from set_texts_etext [of hp2 "?ns hp2" R n] d e2 [of n]
    have "etext (set_texts hp2 (?ns hp2) R ! n) = Some R" by auto
    ultimately show ?thesis by simp
  qed
  have E: "etext (hp' ! n) = Some R \<and> tag (hp ! n) = wq ''t'' \<and> n \<in> set (iter_all hp e)"
    if d: "etext (hp' ! n) \<noteq> etext (hp ! n)" for n
  proof -
    from c consider "hp' = hp1" | "hp' = hp2" | "hp' = set_texts hp2 (?ns hp2) R" by blast
    then show ?thesis
    proof cases
      case 1
      with d e1 [of n] show ?thesis by simp
    next
      case 2
      with d e2 [of n] show ?thesis by simp
    next
      case 3
      with d have "etext (set_texts hp2 (?ns hp2) R ! n) \<noteq> etext (hp ! n)" by simp
      from E3 [OF this] 3 show ?thesis by simp
    qed
  qed
  from P C E show ?thesis by blast
qed

lemma redact_loop_changes:
  "redact_loop st hs R = Some (st', err) \<Longrightarrow>
   prunes (heap st) (heap st')
   \<and> (\<forall>n. children (heap st' ! n) \<noteq> children (heap st ! n) \<longrightarrow>
          (\<exists>h\<in>set hs. get_run_or_paragraph_for_highlight st h = Some (Inr (Some n))))
   \<and> (\<forall>n. etext (heap st' ! n) \<noteq> etext (heap st ! n) \<longrightarrow>
          etext (heap st' ! n) = Some R \<and> tag (heap st ! n) = wq ''t''
          \<and> \<not> outside_containers st hs n)"
proof (induction hs arbitrary: st)
  case Nil
  then show ?case by (simp add: prunes_refl)
next
  case (Cons h hs)
  let ?g = "get_run_or_paragraph_for_highlight st h"
  from Cons.prems obtain res where g: "?g = Some res" by (cases ?g) auto
  show ?case
  proof (cases res)
    case (Inl x)
    with g Cons.prems have "st' = st" by simp
    then show ?thesis by (simp add: prunes_refl)
  next
    case (Inr r)
    show ?thesis
    proof (cases r)
      case None
      let ?st1 = "st\<lparr>stdout := stdout st @ [''Failed to successfully redact a highlight'']\<rparr>"
      from g Inr None Cons.prems have l: "redact_loop ?st1 hs R = Some (st', err)" by simp
      have c: "get_run_or_paragraph_for_highlight ?st1 k = get_run_or_paragraph_for_highlight st k" for k
        by (rule get_run_cong) simp_all
      have o: "outside_containers ?st1 hs n" if "outside_containers st (h # hs) n" for n
        using that by (simp add: outside_containers_def c)
      from Cons.IH [OF l] have P: "prunes (heap st) (heap st')"
        and C: "\<And>n. children (heap st' ! n) \<noteq> children (heap st ! n) \<Longrightarrow>
                 \<exists>k\<in>set hs. get_run_or_paragraph_for_highlight st k = Some (Inr (Some n))"
        and E: "\<And>n. etext (heap st' ! n) \<noteq> etext (heap st ! n) \<Longrightarrow>
                 etext (heap st' ! n) = Some R \<and> tag (heap st ! n) = wq ''t''
                 \<and> \<not> outside_containers ?st1 hs n"
        by (simp_all add: c)
      have C': "\<exists>k\<in>set (h # hs). get_run_or_paragraph_for_highlight st k = Some (Inr (Some n))"
        if "children (heap st' ! n) \<noteq> children (heap st ! n)" for n
        using C [OF that] by auto
      have E': "etext (heap st' ! n) = Some R \<and> tag (heap st ! n) = wq ''t''
                 \<and> \<not> outside_containers st (h # hs) n"
        if "etext (heap st' ! n) \<noteq> etext (heap st ! n)" for n
        using E [OF that] o [of n] by blast
      from P C' E' show ?thesis by blast
    next
      case (Some run)
      obtain hp e1 where rt: "replace_text_in_run_or_paragraph (heap st) run R = (hp, e1)"
        by (cases "replace_text_in_run_or_paragraph (heap st) run R")
      from g Inr Some have gr: "?g = Some (Inr (Some run))" by simp
      from replace_text_changes [OF rt] have p1: "prunes (heap st) hp"
        and c1: "\<And>n. children (hp ! n) \<noteq> children (heap st ! n) \<Longrightarrow> n = run"
        and x1: "\<And>n. etext (hp ! n) \<noteq> etext (heap st ! n) \<Longrightarrow>
                  etext (hp ! n) = Some R \<and> tag (heap st ! n) = wq ''t''
                  \<and> n \<in> set (iter_all (heap st) run)"
        by blast+
      from replace_text_frame [OF rt] have n1: "narrows (heap st) hp" by blast
      have tg: "tag (hp ! n) = tag (heap st ! n)" for n using n1 by (simp add: narrows_def)
      have in_run: "\<not> outside_containers st (h # hs) n" if "n \<in> set (iter_all (heap st) run)" for n
        using that gr by (auto simp: outside_containers_def)
      have C1: "\<exists>k\<in>set (h # hs). get_run_or_paragraph_for_highlight st k = Some (Inr (Some n))"
        if "children (hp ! n) \<noteq> children (heap st ! n)" for n
        using c1 [OF that] gr by auto
      have E1: "etext (hp ! n) = Some R \<and> tag (heap st ! n) = wq ''t''
                 \<and> \<not> outside_containers st (h # hs) n"
        if "etext (hp ! n) \<noteq> etext (heap st ! n)" for n
        using x1 [OF that] in_run [of n] by blast
      show ?thesis
      proof (cases e1)
        case (Some x)
        with g Inr \<open>r = Some run\<close> rt Cons.prems have "st' = st\<lparr>heap := hp\<rparr>" by simp
        with p1 C1 E1 show ?thesis by simp
      next
        case None
        let ?st1 = "st\<lparr>heap := hp\<rparr>"
        from g Inr \<open>r = Some run\<close> rt None Cons.prems
        have l: "redact_loop ?st1 hs R = Some (st', err)" by simp
        have c: "get_run_or_paragraph_for_highlight ?st1 k = get_run_or_paragraph_for_highlight st k" for k
          by (rule get_run_cong) (simp_all add: tg)
        from Cons.IH [OF l] have p2: "prunes hp (heap st')"
          and C2: "\<And>n. children (heap st' ! n) \<noteq> children (hp ! n) \<Longrightarrow>
                 \<exists>k\<in>set hs. get_run_or_paragraph_for_highlight st k = Some (Inr (Some n))"
          and E2: "\<And>n. etext (heap st' ! n) \<noteq> etext (hp ! n) \<Longrightarrow>
                 etext (heap st' ! n) = Some R \<and> tag (hp ! n) = wq ''t''
                 \<and> \<not> outside_containers ?st1 hs n"
          by (simp_all add: c)
        have o: "outside_containers ?st1 hs n" if "outside_containers st (h # hs) n" for n
          unfolding outside_containers_def
        proof (intro ballI allI impI)
          fix k e assume k: "k \<in> set hs"
            and "get_run_or_paragraph_for_highlight ?st1 k = Some (Inr (Some e))"
          then have "get_run_or_paragraph_for_highlight st k = Some (Inr (Some e))"
            by (simp add: c)
          with that k have "n \<notin> set (iter_all (heap st) e)" by (simp add: outside_containers_def)
          with iter_all_narrows [OF n1, of e] show "n \<notin> set (iter_all (heap ?st1) e)" by auto
        qed
        have C': "\<exists>k\<in>set (h # hs). get_run_or_paragraph_for_highlight st k = Some (Inr (Some n))"
          if d: "children (heap st' ! n) \<noteq> children (heap st ! n)" for n
        proof (cases "children (hp ! n) = children (heap st ! n)")
          case True
          with d have "children (heap st' ! n) \<noteq> children (hp ! n)" by simp
          from C2 [OF this] show ?thesis by auto
        next
          case False
          from C1 [OF this] show ?thesis .
        qed
        have E': "etext (heap st' ! n) = Some R \<and> tag (heap st ! n) = wq ''t''
                 \<and> \<not> outside_containers st (h # hs) n"
          if d: "etext (heap st' ! n) \<noteq> etext (heap st ! n)" for n
        proof (cases "etext (heap st' ! n) = etext (hp ! n)")
          case True
          with d have "etext (hp ! n) \<noteq> etext (heap st ! n)" by simp
          from E1 [OF this] True show ?thesis by simp
        next
          case False
          from E2 [OF False] o [of n] show ?thesis by (auto simp: tg)
        qed
        from prunes_trans [OF p1 p2] C' E' show ?thesis by blast
      qed
    qed
  qed
qed

lemma iter_all_same:
  "length hp' = length hp \<Longrightarrow> (\<forall>n\<in>set (iter_all hp e). children (hp' ! n) = children (hp ! n)) \<Longrightarrow>
   iter_all hp' e = iter_all hp e"
proof (induction hp e rule: iter_all.induct)
  case (1 hp n)
  have n: "children (hp' ! n) = children (hp ! n)"
    using "1.prems"(2) iter_all_self [of n hp] by blast
  with "1.prems"(1) have cr: "child_refs hp' n = child_refs hp n" by (simp add: child_refs_def)
  have "iter_all hp' c = iter_all hp c" if c: "c \<in> set (child_refs hp n)" for c
  proof (rule "1.IH" [OF c "1.prems"(1)])
    show "\<forall>m\<in>set (iter_all hp c). children (hp' ! m) = children (hp ! m)"
      using "1.prems"(2) iter_all_child [OF c] by blast
  qed
  then have m: "map (iter_all hp') (child_refs hp n) = map (iter_all hp) (child_refs hp n)"
    by simp
  have "iter_all hp' n = n # concat (map (iter_all hp') (child_refs hp' n))"
    by (rule iter_all.simps)
  also have "\<dots> = n # concat (map (iter_all hp) (child_refs hp n))"
    by (simp only: cr m)
  also have "\<dots> = iter_all hp n"
    by (rule iter_all.simps [symmetric])
  finally show ?case .
qed

lemma redact_changes:
  assumes "redact st c R = Some (st', err)"
  shows "prunes (heap st) (heap st')
   \<and> (\<forall>n. children (heap st' ! n) \<noteq> children (heap st ! n) \<longrightarrow>
          (\<exists>hs h. get_highlights st (Some c) = Inr hs \<and> h \<in> set hs
                  \<and> get_run_or_paragraph_for_highlight st h = Some (Inr (Some n))))
   \<and> (\<forall>n. etext (heap st' ! n) \<noteq> etext (heap st ! n) \<longrightarrow>
          etext (heap st' ! n) = Some R \<and> tag (heap st ! n) = wq ''t''
          \<and> (\<exists>hs. get_highlights st (Some c) = Inr hs \<and> \<not> outside_containers st hs n))"
proof (cases "check_open st")
  case (Some e)
  with assms have "st' = st" by (simp add: redact_def)
  then show ?thesis by (simp add: prunes_refl)
next
  case None
  show ?thesis
  proof (cases "get_highlights st (Some c)")
    case (Inl e)
    with None assms have "st' = st" by (simp add: redact_def)
    then show ?thesis by (simp add: prunes_refl)
  next
    case (Inr hs)
    with None assms have "redact_loop st hs R = Some (st', err)" by (simp add: redact_def)
    from redact_loop_changes [OF this] Inr show ?thesis by blast
  qed
qed

text \<open>
  Why the last part of the amended claim C3 speaks of whole subtrees: in
  \<open>run_in_marked_paragraph\<close> the green marker \<open>5\<close> belongs to the paragraph \<open>2\<close>, which is
  not inside the run \<open>6\<close> found for the yellow marker, and yet the text element \<open>9\<close> of
  that paragraph is overwritten, because it lies in the run.
\<close>

lemma redact_run_in_marked_paragraph:
  "get_highlights (opened run_in_marked_paragraph) (Some ''yellow'') = Inr [8]
   \<and> get_run_or_paragraph_for_highlight (opened run_in_marked_paragraph) 8 = Some (Inr (Some 6))
   \<and> get_run_or_paragraph_for_highlight (opened run_in_marked_paragraph) 5 = Some (Inr (Some 2))
   \<and> iter_all run_in_marked_paragraph 6 = [6, 7, 8, 9]
   \<and> iter_all run_in_marked_paragraph 2 = [2, 3, 4, 5, 6, 7, 8, 9]
   \<and> map_option (\<lambda>(s, e). (e, etext (heap s ! 9)))
        (redact (opened run_in_marked_paragraph) ''yellow'' ''X'') = Some (None, Some ''X'')"
  by code_simp

text \<open>
  Claim C3, amended: on a redactor whose parent map is decreasing (every redactor that
  has opened a document), \<open>redact\<close> with the color \<open>c\<close> returns, normally or with an
  exception, and leaves the parent map and a heap with the same elements, in which
  \<^item> every element has its tag, its attributes and its tail, and its child list is the
    former one from which run properties or paragraph properties were removed;
  \<^item> a child list differs only at a run or paragraph found for a color-\<open>c\<close> highlight;
  \<^item> a text differs only at a text element at or below such a run or paragraph, and is
    then the replacement;
  \<^item> every element that is not a run, a paragraph or a text element is exactly as
    before, so every highlight marker and every formatting-override element is;
  \<^item> every element that is not at or below a run or paragraph found for a color-\<open>c\<close>
    highlight is exactly as before;
  \<^item> a subtree none of whose elements is at or below such a run or paragraph has the
    same elements in the same order, each exactly as before.

  For a highlight marker of another color the last item applies to its own run or
  paragraph when no element of that run or paragraph lies in a container found for
  \<open>c\<close>: then the marker, its override ancestors and the text leaves are as before.
\<close>

theorem redact_frame:
  assumes "\<forall>pm. parent_map st = Some pm \<longrightarrow> decreasing pm"
  shows "\<exists>st' err. redact st c R = Some (st', err)
       \<and> parent_map st' = parent_map st
       \<and> length (heap st') = length (heap st)
       \<and> (\<forall>n. tag (heap st' ! n) = tag (heap st ! n)
                \<and> attrib (heap st' ! n) = attrib (heap st ! n)
                \<and> tail (heap st' ! n) = tail (heap st ! n)
                \<and> (\<exists>xs. children (heap st' ! n) = fold remove1 xs (children (heap st ! n))
                      \<and> (\<forall>x\<in>set xs. tag (heap st ! x) = wq ''rPr''
                                      \<or> tag (heap st ! x) = wq ''pPr'')))
       \<and> (\<forall>n. children (heap st' ! n) \<noteq> children (heap st ! n) \<longrightarrow>
                (\<exists>hs h. get_highlights st (Some c) = Inr hs \<and> h \<in> set hs
                   \<and> get_run_or_paragraph_for_highlight st h = Some (Inr (Some n))))
       \<and> (\<forall>n. etext (heap st' ! n) \<noteq> etext (heap st ! n) \<longrightarrow>
                etext (heap st' ! n) = Some R \<and> tag (heap st ! n) = wq ''t''
                \<and> (\<exists>hs. get_highlights st (Some c) = Inr hs \<and> \<not> outside_containers st hs n))
       \<and> (\<forall>n. tag (heap st ! n) \<noteq> wq ''r'' \<and> tag (heap st ! n) \<noteq> wq ''p''
                \<and> tag (heap st ! n) \<noteq> wq ''t'' \<longrightarrow> heap st' ! n = heap st ! n)
       \<and> (\<forall>hs n. get_highlights st (Some c) = Inr hs \<longrightarrow> outside_containers st hs n \<longrightarrow>
                heap st' ! n = heap st ! n)
       \<and> (\<forall>hs e. get_highlights st (Some c) = Inr hs \<longrightarrow>
                (\<forall>n\<in>set (iter_all (heap st) e). outside_containers st hs n) \<longrightarrow>
                iter_all (heap st') e = iter_all (heap st) e
                \<and> (\<forall>n\<in>set (iter_all (heap st) e). heap st' ! n = heap st ! n))"
proof -
  from redact_returns [OF assms] obtain st' err where r: "redact st c R = Some (st', err)"
    by blast
  from redact_frame_returned [OF r] have len: "length (heap st') = length (heap st)"
    and pl: "\<forall>n. tag (heap st ! n) \<noteq> wq ''r'' \<and> tag (heap st ! n) \<noteq> wq ''p''
                \<and> tag (heap st ! n) \<noteq> wq ''t'' \<longrightarrow> heap st' ! n = heap st ! n"
    and ou: "\<forall>hs n. get_highlights st (Some c) = Inr hs \<longrightarrow> outside_containers st hs n \<longrightarrow>
                heap st' ! n = heap st ! n"
    by blast+
  from redact_changes [OF r] have pr: "prunes (heap st) (heap st')"
    and ch: "\<forall>n. children (heap st' ! n) \<noteq> children (heap st ! n) \<longrightarrow>
                (\<exists>hs h. get_highlights st (Some c) = Inr hs \<and> h \<in> set hs
                   \<and> get_run_or_paragraph_for_highlight st h = Some (Inr (Some n)))"
    and tx: "\<forall>n. etext (heap st' ! n) \<noteq> etext (heap st ! n) \<longrightarrow>
                etext (heap st' ! n) = Some R \<and> tag (heap st ! n) = wq ''t''
                \<and> (\<exists>hs. get_highlights st (Some c) = Inr hs \<and> \<not> outside_containers st hs n)"
    by blast+
  from redact_parent_map [OF r] have pm: "parent_map st' = parent_map st" .
  from pr have fields: "\<forall>n. tag (heap st' ! n) = tag (heap st ! n)
                \<and> attrib (heap st' ! n) = attrib (heap st ! n)
                \<and> tail (heap st' ! n) = tail (heap st ! n)
                \<and> (\<exists>xs. children (heap st' ! n) = fold remove1 xs (children (heap st ! n))
                      \<and> (\<forall>x\<in>set xs. tag (heap st ! x) = wq ''rPr''
                                      \<or> tag (heap st ! x) = wq ''pPr''))"
    by (simp add: prunes_def list_all_iff)
  have sub: "\<forall>hs e. get_highlights st (Some c) = Inr hs \<longrightarrow>
                (\<forall>n\<in>set (iter_all (heap st) e). outside_containers st hs n) \<longrightarrow>
                iter_all (heap st') e = iter_all (heap st) e
                \<and> (\<forall>n\<in>set (iter_all (heap st) e). heap st' ! n = heap st ! n)"
  proof (intro allI impI)
    fix hs e assume hs: "get_highlights st (Some c) = Inr hs"
      and o: "\<forall>n\<in>set (iter_all (heap st) e). outside_containers st hs n"
    from hs o ou have same: "\<forall>n\<in>set (iter_all (heap st) e). heap st' ! n = heap st ! n"
      by blast
    then have "\<forall>n\<in>set (iter_all (heap st) e). children (heap st' ! n) = children (heap st ! n)"
      by simp
    with len have "iter_all (heap st') e = iter_all (heap st) e" by (rule iter_all_same)
    with same show "iter_all (heap st') e = iter_all (heap st) e
                \<and> (\<forall>n\<in>set (iter_all (heap st) e). heap st' ! n = heap st ! n)" by simp
  qed
  from r pm len fields ch tx pl ou sub show ?thesis by blast
qed

theorem redact_frame_witness:
  "parent_map (opened two_runs) = Some (build_parent_map two_runs 0)
   \<and> decreasing (build_parent_map two_runs 0)
   \<and> get_highlights (opened two_runs) (Some ''yellow'') = Inr [5]
   \<and> get_run_or_paragraph_for_highlight (opened two_runs) 5 = Some (Inr (Some 3))
   \<and> iter_all two_runs 3 = [3, 4, 5, 6]
   \<and> iter_all two_runs 7 = [7, 8, 9, 10]
   \<and> (\<exists>st'. redact (opened two_runs) ''yellow'' ''[REDACTED]'' = Some (st', None)
         \<and> etext (heap st' ! 6) = Some ''[REDACTED]''
         \<and> children (heap st' ! 3) = [6]
         \<and> heap st' ! 5 = two_runs ! 5
         \<and> iter_all (heap st') 7 = [7, 8, 9, 10]
         \<and> heap st' ! 7 = two_runs ! 7 \<and> heap st' ! 8 = two_runs ! 8
         \<and> heap st' ! 9 = two_runs ! 9 \<and> heap st' ! 10 = two_runs ! 10)"
proof -
  let ?st = "opened two_runs"
  have pm: "parent_map ?st = Some (build_parent_map two_runs 0)" by (simp add: opened_def)
  have "0 < length two_runs" by (simp add: two_runs_def)
  with wf_examples(1) have dec: "decreasing (build_parent_map two_runs 0)"
    by (rule build_parent_map_decreasing)
  have ev: "map_option (\<lambda>(s, e). (e, etext (heap s ! 6), children (heap s ! 3)))
              (redact ?st ''yellow'' ''[REDACTED]'')
          = Some (None, Some ''[REDACTED]'', [6])"
    by code_simp
  have hs: "get_highlights ?st (Some ''yellow'') = Inr [5]" by code_simp
  have g: "get_run_or_paragraph_for_highlight ?st 5 = Some (Inr (Some 3))" by code_simp
  have it: "iter_all two_runs 3 = [3, 4, 5, 6]" by code_simp
  have it7: "iter_all two_runs 7 = [7, 8, 9, 10]" by code_simp
  have hp: "heap ?st = two_runs" by (simp add: opened_def)
  have o: "outside_containers ?st [5] n" if "n \<notin> set [3, 4, 5, 6]" for n
    using that by (simp add: outside_containers_def g hp it)
  have o7: "\<forall>n\<in>set (iter_all two_runs 7). outside_containers ?st [5] n"
    unfolding it7 by (simp add: o)
  have h5: "tag (two_runs ! 5) \<noteq> wq ''r'' \<and> tag (two_runs ! 5) \<noteq> wq ''p'' \<and> tag (two_runs ! 5) \<noteq> wq ''t''"
    by (simp add: two_runs_def w_elem_def wq_def)
  have "\<forall>m. parent_map ?st = Some m \<longrightarrow> decreasing m" using pm dec by simp
  from redact_frame [OF this, of "''yellow''" "''[REDACTED]''", unfolded hp]
  obtain st' err where r: "redact ?st ''yellow'' ''[REDACTED]'' = Some (st', err)"
    and pl: "\<forall>n. tag (two_runs ! n) \<noteq> wq ''r'' \<and> tag (two_runs ! n) \<noteq> wq ''p''
                \<and> tag (two_runs ! n) \<noteq> wq ''t'' \<longrightarrow> heap st' ! n = two_runs ! n"
    and ou: "\<forall>hs n. get_highlights ?st (Some ''yellow'') = Inr hs \<longrightarrow> outside_containers ?st hs n \<longrightarrow>
                heap st' ! n = two_runs ! n"
    and sub: "\<forall>hs e. get_highlights ?st (Some ''yellow'') = Inr hs \<longrightarrow>
                (\<forall>n\<in>set (iter_all two_runs e). outside_containers ?st hs n) \<longrightarrow>
                iter_all (heap st') e = iter_all two_runs e
                \<and> (\<forall>n\<in>set (iter_all two_runs e). heap st' ! n = two_runs ! n)"
    by (elim exE conjE)
  from ev r have e: "err = None" and x: "etext (heap st' ! 6) = Some ''[REDACTED]''"
    and k: "children (heap st' ! 3) = [6]" by simp_all
  have a: "heap st' ! 5 = two_runs ! 5" using pl h5 by blast
  have b: "heap st' ! n = two_runs ! n" if "n \<notin> set [3, 4, 5, 6]" for n
    using ou hs o [OF that] by blast
  have s7: "iter_all (heap st') 7 = [7, 8, 9, 10]"
    using sub hs o7 it7 by metis
  have "heap st' ! 7 = two_runs ! 7" "heap st' ! 8 = two_runs ! 8"
    "heap st' ! 9 = two_runs ! 9" "heap st' ! 10 = two_runs ! 10"
    by (simp_all add: b)
  with r e x k a s7 have "\<exists>st'. redact ?st ''yellow'' ''[REDACTED]'' = Some (st', None)
         \<and> etext (heap st' ! 6) = Some ''[REDACTED]''
         \<and> children (heap st' ! 3) = [6]
         \<and> heap st' ! 5 = two_runs ! 5
         \<and> iter_all (heap st') 7 = [7, 8, 9, 10]
         \<and> heap st' ! 7 = two_runs ! 7 \<and> heap st' ! 8 = two_runs ! 8
         \<and> heap st' ! 9 = two_runs ! 9 \<and> heap st' ! 10 = two_runs ! 10" by blast
  with pm dec hs g it it7 show ?thesis by blast
qed

section \<open>Saving\<close>



lemma getinfo_Inr:
  "getinfo ar name = Inr i \<Longrightarrow> filename i = name \<and> (\<exists>b. (i, b) \<in> set (entries ar))"
proof -
  assume a: "getinfo ar name = Inr i"
  let ?f = "filter (\<lambda>e. filename (fst e) = name) (entries ar)"
  from a have ne: "?f \<noteq> []" and i: "i = fst (last ?f)"
    by (auto simp: getinfo_def split: list.splits)
  from ne have "last ?f \<in> set ?f" by (rule last_in_set)
  then have "filename (fst (last ?f)) = name" "last ?f \<in> set (entries ar)" by auto
  with i show ?thesis by (metis prod.collapse)
qed





lemma open_doc_ok:
  assumes "open_doc fromstring fs st0 p = (st, None)" and "fs p = Some (ZipFile ar)"
  shows "\<exists>info doc hp r. getinfo ar ''word/document.xml'' = Inr info
           \<and> zip_read ar ''word/document.xml'' = Inr doc
           \<and> filename info = ''word/document.xml''
           \<and> fromstring doc = Inr (hp, r)
           \<and> is_open st \<and> root st = Some r \<and> path st = Some p \<and> doc_info st = Some info
           \<and> heap st = hp \<and> parent_map st = Some (build_parent_map hp r)"
proof -
  from assms obtain info where gi: "getinfo ar ''word/document.xml'' = Inr info"
    by (cases "getinfo ar ''word/document.xml''") (auto simp: open_doc_def)
  from getinfo_Inr [OF gi] have fn: "filename info = ''word/document.xml''" by simp
  from assms gi fn obtain doc where zr: "zip_read ar ''word/document.xml'' = Inr doc"
    by (cases "zip_read ar ''word/document.xml''") (auto simp: open_doc_def)
  from assms gi fn zr obtain hp r where fr: "fromstring doc = Inr (hp, r)"
    by (cases "fromstring doc") (auto simp: open_doc_def)
  from assms gi fn zr fr
  have "st = st0\<lparr>path := Some p, doc_info := Some info, root := Some r,
                   heap := hp, parent_map := Some (build_parent_map hp r), is_open := True\<rparr>"
    by (simp add: open_doc_def)
  with gi fn zr fr show ?thesis by simp
qed

text \<open>
  When the parser yields well-formed heaps, the parent map of every opened document is
  decreasing.
\<close>

lemma open_doc_decreasing:
  assumes "open_doc fromstring fs st0 p = (st, None)"
    and "\<And>b hp r. fromstring b = Inr (hp, r) \<Longrightarrow> wf_heap hp \<and> r < length hp"
  shows "\<exists>pm. parent_map st = Some pm \<and> decreasing pm"
proof -
  from assms(1) obtain ar where f: "fs p = Some (ZipFile ar)"
    by (cases "fs p") (auto simp: open_doc_def split: fs_file.splits)
  from open_doc_ok [OF assms(1) f] obtain doc hp r where
    fr: "fromstring doc = Inr (hp, r)" and pm: "parent_map st = Some (build_parent_map hp r)"
    by blast
  from assms(2) [OF fr] have "decreasing (build_parent_map hp r)"
    by (intro build_parent_map_decreasing) simp_all
  with pm show ?thesis by simp
qed




end
